theory Spec2Isabelle
  imports Main "HOL-Library.Word"
begin

unbundle bit_operations_syntax

section \<open>The program acyclomatic.c: infix to postfix with branch-free functions\<close>

text \<open>
  The program converts an arithmetical expression (operands \<open>a\<close>-\<open>z\<close>, the operators
  \<open>+ - * /\<close> and round brackets) into postfix form. Every function of the source has
  cyclomatic complexity 1: branches are replaced by arithmetic on the result of
  \<open>check_interval\<close> and by calls through function tables, loops by recursion.

  Conventions of the embedding:
  \<^item> \<open>int\<close> is a 32-bit two's complement integer, \<^typ>\<open>32 word\<close>; \<open>sizeof(int) * 8 - 1\<close>
    is 31; \<open>>>\<close> on a negative \<open>int\<close> is the arithmetic shift.
  \<^item> \<open>char\<close> is a signed byte (the x86 ABI), so the promotion of a \<open>char\<close> to \<open>int\<close>
    is the sign extension \<open>promote\<close>; the conversion back keeps the low 8 bits. Were
    \<open>char\<close> unsigned, the bytes from 128 on would be promoted to 128..255 instead of
    -128..-1; every interval check of the program fails on both (\<open>check_interval_high_bytes\<close>).
  \<^item> The input string is the list of its characters; the terminating \<open>'\0'\<close> is what is read
    at the end of the list. A \<open>'\0'\<close> inside the list ends the string there, as in C.
  \<^item> The stack is the block of \<open>MAX_STACK_DEPTH\<close> bytes that \<open>main\<close> allocates. The
    global \<open>stack_top\<close> is modelled by its offset from \<open>stack_bottom\<close>; the block by the map
    \<open>heap\<close> from offsets to bytes, where \<open>None\<close> is a byte that was never written.
  \<^item> A load or store outside the block, a load of a byte never written and a call through a
    table at an index outside it are undefined behaviour in C. The source checks none of them;
    the model stops at the first of them with a \<open>fault\<close> that names the access. What the
    program does from there on is not modelled: only a run that returns (\<open>Inr\<close>) is a run
    without such an access.
  \<^item> Everything printed goes to \<open>stdout\<close>, modelled as the string of the characters printed.
\<close>

subsection \<open>Data types and constants\<close>

type_synonym cint = "32 word"

definition promote :: "char \<Rightarrow> cint" where
  "promote c = scast (of_char c :: 8 word)"

definition to_char :: "cint \<Rightarrow> char" where
  "to_char w = char_of (uint w)"

abbreviation NUL :: char where
  "NUL \<equiv> CHR 0x00"

abbreviation ASCII_MAX :: cint where
  "ASCII_MAX \<equiv> 127"

abbreviation HANDLE_ERROR :: cint where
  "HANDLE_ERROR \<equiv> 0"

abbreviation HANDLE_END :: cint where
  "HANDLE_END \<equiv> 1"

abbreviation HANDLE_SYMBOL :: cint where
  "HANDLE_SYMBOL \<equiv> 2"

abbreviation HANDLE_ADD_SUB :: cint where
  "HANDLE_ADD_SUB \<equiv> 3"

abbreviation HANDLE_MUL_DIV :: cint where
  "HANDLE_MUL_DIV \<equiv> 4"

abbreviation HANDLE_OPEN_BRKT :: cint where
  "HANDLE_OPEN_BRKT \<equiv> 5"

abbreviation HANDLE_CLOSE_BRKT :: cint where
  "HANDLE_CLOSE_BRKT \<equiv> 6"

abbreviation MAX_STACK_DEPTH :: int where
  "MAX_STACK_DEPTH \<equiv> 64"

record machine =
  stack_top :: int
  heap :: "int \<rightharpoonup> char"
  stdout :: string

datatype fault =
    Load_outside int
  | Load_unwritten int
  | Store_outside int
  | Call_outside_table int
  | Read_past_terminator

text \<open>
  What a handler does last: it calls \<open>convert(++str)\<close> (\<open>Recurse\<close>) or it returns to its
  caller (\<open>Return\<close>), each with the state of the globals and of the output at that point.
\<close>

datatype flow = Recurse machine | Return machine

definition and_then :: "fault + 'a \<Rightarrow> ('a \<Rightarrow> fault + 'b) \<Rightarrow> fault + 'b" where
  "and_then r f = (case r of Inl e \<Rightarrow> Inl e | Inr x \<Rightarrow> f x)"

subsection \<open>The interval check\<close>

definition check_interval :: "cint \<Rightarrow> cint \<Rightarrow> cint \<Rightarrow> cint" where
  "check_interval v low high =
     NOT (signed_drop_bit 31 ((high - v) OR (v - low))) AND 1"

text \<open>The subtraction \<open>a - b\<close> of two \<open>int\<close>s does not overflow.\<close>

definition no_overflow :: "cint \<Rightarrow> cint \<Rightarrow> bool" where
  "no_overflow a b \<longleftrightarrow> - (2 ^ 31) \<le> sint a - sint b \<and> sint a - sint b < 2 ^ 31"

subsection \<open>Memory and calls through a table\<close>

definition load :: "int \<Rightarrow> machine \<Rightarrow> fault + char" where
  "load i m =
     (if i < 0 \<or> MAX_STACK_DEPTH \<le> i then Inl (Load_outside i)
      else case heap m i of None \<Rightarrow> Inl (Load_unwritten i) | Some c \<Rightarrow> Inr c)"

definition store :: "int \<Rightarrow> char \<Rightarrow> machine \<Rightarrow> fault + machine" where
  "store i c m =
     (if i < 0 \<or> MAX_STACK_DEPTH \<le> i then Inl (Store_outside i)
      else Inr (m\<lparr>heap := (heap m)(i \<mapsto> c)\<rparr>))"

definition table_entry :: "'a list \<Rightarrow> cint \<Rightarrow> fault + 'a" where
  "table_entry table i =
     (if 0 \<le> sint i \<and> nat (sint i) < length table then Inr (table ! nat (sint i))
      else Inl (Call_outside_table (sint i)))"

subsection \<open>Printing\<close>

definition print_nothing :: "char \<Rightarrow> machine \<Rightarrow> machine" where
  "print_nothing c m = m"

definition print_char :: "char \<Rightarrow> machine \<Rightarrow> machine" where
  "print_char c m = m\<lparr>stdout := stdout m @ [c]\<rparr>"

definition printf :: "string \<Rightarrow> machine \<Rightarrow> machine" where
  "printf text m = m\<lparr>stdout := stdout m @ text\<rparr>"

definition print_call_table :: "(char \<Rightarrow> machine \<Rightarrow> machine) list" where
  "print_call_table = [print_nothing, print_char]"

definition print_symbol :: "char \<Rightarrow> machine \<Rightarrow> fault + machine" where
  "print_symbol c m =
     (let call_index = check_interval (promote c) 1 ASCII_MAX
      in and_then (table_entry print_call_table call_index) (\<lambda>print. Inr (print c m)))"

subsection \<open>The stack\<close>

definition push :: "char \<Rightarrow> machine \<Rightarrow> fault + machine" where
  "push c m = store (stack_top m + 1) c (m\<lparr>stack_top := stack_top m + 1\<rparr>)"

definition pop :: "machine \<Rightarrow> fault + char \<times> machine" where
  "pop m =
     and_then (load (stack_top m) m) (\<lambda>c.
       Inr (c, m\<lparr>stack_top := stack_top m - sint (check_interval (promote c) 0 0 XOR 1)\<rparr>))"

definition pop_mul_div :: "machine \<Rightarrow> fault + char \<times> machine" where
  "pop_mul_div m =
     and_then (load (stack_top m) m) (\<lambda>c.
       let cond = check_interval (promote c) (of_char CHR ''*'') (of_char CHR ''*'')
                    OR check_interval (promote c) (of_char CHR ''/'') (of_char CHR ''/'')
       in Inr (to_char (promote c * cond), m\<lparr>stack_top := stack_top m - sint cond\<rparr>))"

definition pop0 :: "machine \<Rightarrow> fault + machine" where
  "pop0 m =
     and_then (load (stack_top m) m) (\<lambda>c.
       Inr (m\<lparr>stack_top := stack_top m - sint (check_interval (promote c) 0 0)\<rparr>))"

subsection \<open>The handlers\<close>

text \<open>
  A handler gets the character \<open>*str\<close> it was called for. The source's handlers end with the
  call \<open>convert(++str)\<close>; here they end with \<open>Recurse\<close> and \<open>convert\<close> makes the call.
\<close>

definition error_text :: string where
  "error_text = [CHR 0x0A] @ ''Error in the expression'' @ [CHR 0x0A]"

definition handle_error :: "char \<Rightarrow> machine \<Rightarrow> fault + flow" where
  "handle_error c m = Inr (Return (printf error_text m))"

definition handle_end :: "char \<Rightarrow> machine \<Rightarrow> fault + flow" where
  "handle_end c m =
     and_then (pop m) (\<lambda>(c1, m1).
     and_then (print_symbol c1 m1) (\<lambda>m2.
     and_then (pop m2) (\<lambda>(c2, m3).
     and_then (print_symbol c2 m3) (\<lambda>m4.
     Inr (Return (printf [CHR 0x0A] m4))))))"

definition handle_symbol :: "char \<Rightarrow> machine \<Rightarrow> fault + flow" where
  "handle_symbol c m = Inr (Recurse (printf [c] m))"

definition handle_add_sub :: "char \<Rightarrow> machine \<Rightarrow> fault + flow" where
  "handle_add_sub c m =
     and_then (pop m) (\<lambda>(c1, m1).
     and_then (print_symbol c1 m1) (\<lambda>m2.
     and_then (pop m2) (\<lambda>(c2, m3).
     and_then (print_symbol c2 m3) (\<lambda>m4.
     and_then (push c m4) (\<lambda>m5.
     Inr (Recurse m5))))))"

definition handle_mul_div :: "char \<Rightarrow> machine \<Rightarrow> fault + flow" where
  "handle_mul_div c m =
     and_then (pop_mul_div m) (\<lambda>(c1, m1).
     and_then (print_symbol c1 m1) (\<lambda>m2.
     and_then (push c m2) (\<lambda>m3.
     Inr (Recurse m3))))"

definition handle_open_bracket :: "char \<Rightarrow> machine \<Rightarrow> fault + flow" where
  "handle_open_bracket c m =
     and_then (push NUL m) (\<lambda>m1. Inr (Recurse m1))"

definition handle_close_bracket :: "char \<Rightarrow> machine \<Rightarrow> fault + flow" where
  "handle_close_bracket c m =
     and_then (pop m) (\<lambda>(c1, m1).
     and_then (print_symbol c1 m1) (\<lambda>m2.
     and_then (pop m2) (\<lambda>(c2, m3).
     and_then (print_symbol c2 m3) (\<lambda>m4.
     and_then (pop0 m4) (\<lambda>m5.
     Inr (Recurse m5))))))"

definition call_table :: "(char \<Rightarrow> machine \<Rightarrow> fault + flow) list" where
  "call_table =
     [handle_error, handle_end, handle_symbol, handle_add_sub, handle_mul_div,
      handle_open_bracket, handle_close_bracket]"

subsection \<open>The conversion\<close>

definition call_index :: "char \<Rightarrow> cint" where
  "call_index c =
     check_interval (promote c) (of_char NUL) (of_char NUL) * HANDLE_END
     + check_interval (promote c) (of_char CHR ''a'') (of_char CHR ''z'') * HANDLE_SYMBOL
     + check_interval (promote c) (of_char CHR ''+'') (of_char CHR ''+'') * HANDLE_ADD_SUB
     + check_interval (promote c) (of_char CHR ''-'') (of_char CHR ''-'') * HANDLE_ADD_SUB
     + check_interval (promote c) (of_char CHR ''*'') (of_char CHR ''*'') * HANDLE_MUL_DIV
     + check_interval (promote c) (of_char CHR ''/'') (of_char CHR ''/'') * HANDLE_MUL_DIV
     + check_interval (promote c) (of_char CHR ''('') (of_char CHR ''('') * HANDLE_OPEN_BRKT
     + check_interval (promote c) (of_char CHR '')'') (of_char CHR '')'') * HANDLE_CLOSE_BRKT"

definition action :: "char \<Rightarrow> machine \<Rightarrow> fault + flow" where
  "action c m = and_then (table_entry call_table (call_index c)) (\<lambda>handler. handler c m)"

fun convert :: "string \<Rightarrow> machine \<Rightarrow> fault + machine" where
  "convert [] m =
     and_then (action NUL m) (\<lambda>r.
       case r of Return m' \<Rightarrow> Inr m' | Recurse m' \<Rightarrow> Inl Read_past_terminator)"
| "convert (c # str) m =
     and_then (action c m) (\<lambda>r.
       case r of Return m' \<Rightarrow> Inr m' | Recurse m' \<Rightarrow> convert str m')"

text \<open>
  The state in which \<open>main\<close> starts the conversion: \<open>stack_top = stack_bottom\<close> and
  \<open>*stack_top = 0\<close>; the other bytes of the block are not written yet. The output is taken
  from the point where \<open>main\<close> has printed \<open>OUTPUT: \<close>.
\<close>

definition initial :: machine where
  "initial = \<lparr>stack_top = 0, heap = [0 \<mapsto> NUL], stdout = []\<rparr>"

definition printed :: "string \<Rightarrow> fault + string" where
  "printed str = and_then (convert str initial) (\<lambda>m. Inr (stdout m))"

subsection \<open>Characters and their categories\<close>

text \<open>The value of a \<open>char\<close> as the signed byte it is: \<open>-128\<close> to \<open>127\<close>.\<close>

definition char_value :: "char \<Rightarrow> int" where
  "char_value c = (if (of_char c :: int) < 128 then of_char c else of_char c - 256)"

definition is_operand :: "char \<Rightarrow> bool" where
  "is_operand c \<longleftrightarrow> c \<in> set ''abcdefghijklmnopqrstuvwxyz''"

definition is_additive :: "char \<Rightarrow> bool" where
  "is_additive c \<longleftrightarrow> c = CHR ''+'' \<or> c = CHR ''-''"

definition is_multiplicative :: "char \<Rightarrow> bool" where
  "is_multiplicative c \<longleftrightarrow> c = CHR ''*'' \<or> c = CHR ''/''"

text \<open>
  The seven categories of the classifier, in the words of the specification, and the handler
  the source's constants \<open>HANDLE_...\<close> give to each.
\<close>

datatype category =
  EndOfInput | Operand | AdditiveOp | MultiplicativeOp | OpenBracket | CloseBracket | Invalid

definition classify :: "char \<Rightarrow> category" where
  "classify c =
     (if c = NUL then EndOfInput
      else if is_operand c then Operand
      else if is_additive c then AdditiveOp
      else if is_multiplicative c then MultiplicativeOp
      else if c = CHR ''('' then OpenBracket
      else if c = CHR '')'' then CloseBracket
      else Invalid)"

fun handler_index :: "category \<Rightarrow> cint" where
  "handler_index Invalid = HANDLE_ERROR"
| "handler_index EndOfInput = HANDLE_END"
| "handler_index Operand = HANDLE_SYMBOL"
| "handler_index AdditiveOp = HANDLE_ADD_SUB"
| "handler_index MultiplicativeOp = HANDLE_MUL_DIV"
| "handler_index OpenBracket = HANDLE_OPEN_BRKT"
| "handler_index CloseBracket = HANDLE_CLOSE_BRKT"

fun handler :: "category \<Rightarrow> char \<Rightarrow> machine \<Rightarrow> fault + flow" where
  "handler Invalid = handle_error"
| "handler EndOfInput = handle_end"
| "handler Operand = handle_symbol"
| "handler AdditiveOp = handle_add_sub"
| "handler MultiplicativeOp = handle_mul_div"
| "handler OpenBracket = handle_open_bracket"
| "handler CloseBracket = handle_close_bracket"

subsection \<open>The stack as a list\<close>

text \<open>
  The bytes \<open>stack_bottom[0]\<close> to \<open>*stack_top\<close>, the top first: \<open>None\<close> when \<open>stack_top\<close>
  is not in the block or just below it, or when one of these bytes was never written. Just
  below it (offset \<open>-1\<close>) the list is empty.
\<close>

primrec cells :: "(int \<rightharpoonup> char) \<Rightarrow> nat \<Rightarrow> char list option" where
  "cells h 0 = Some []"
| "cells h (Suc n) =
     (case h (int n) of None \<Rightarrow> None | Some c \<Rightarrow> map_option ((#) c) (cells h n))"

definition stack_contents :: "machine \<Rightarrow> char list option" where
  "stack_contents m =
     (if stack_top m < - 1 \<or> MAX_STACK_DEPTH \<le> stack_top m then None
      else cells (heap m) (nat (stack_top m + 1)))"

text \<open>
  The scopes of a stack, the innermost first: the runs of entries between the sentinels. The
  last one lies below the lowest sentinel, the one \<open>main\<close> has put at \<open>stack_bottom\<close>.
\<close>

fun scopes :: "char list \<Rightarrow> char list list" where
  "scopes [] = [[]]"
| "scopes (x # xs) =
     (if x = NUL then [] # scopes xs else (x # hd (scopes xs)) # tl (scopes xs))"

text \<open>
  The invariant of the specification for one scope: operators only, at most two, and if two
  then a multiplicative one on top of an additive one.
\<close>

definition scope_ok :: "char list \<Rightarrow> bool" where
  "scope_ok s \<longleftrightarrow>
     list_all (\<lambda>c. is_additive c \<or> is_multiplicative c) s \<and> length s \<le> 2
     \<and> (length s = 2 \<longrightarrow> is_multiplicative (s ! 0) \<and> is_additive (s ! 1))"

text \<open>What the handlers put on the stack: the sentinel and the four operators.\<close>

definition stack_char :: "char \<Rightarrow> bool" where
  "stack_char x \<longleftrightarrow> x = NUL \<or> is_additive x \<or> is_multiplicative x"

text \<open>The pending operators of the current scope: the entries above the nearest sentinel.\<close>

definition pending :: "char list \<Rightarrow> char list" where
  "pending stk = takeWhile (\<lambda>x. x \<noteq> NUL) stk"

definition orderly :: "machine \<Rightarrow> bool" where
  "orderly m =
     (case stack_contents m of None \<Rightarrow> False | Some stk \<Rightarrow> list_all scope_ok (scopes stk))"

text \<open>
  The states of a conversion: the state at each call of \<open>convert\<close>, and the state in which the
  last handler returns.
\<close>

fun trace :: "string \<Rightarrow> machine \<Rightarrow> machine list" where
  "trace [] m =
     m # (case action NUL m of Inl f \<Rightarrow> [] | Inr (Recurse m') \<Rightarrow> [] | Inr (Return m') \<Rightarrow> [m'])"
| "trace (c # str) m =
     m # (case action c m of Inl f \<Rightarrow> [] | Inr (Recurse m') \<Rightarrow> trace str m'
          | Inr (Return m') \<Rightarrow> [m'])"

subsection \<open>Well-formed input\<close>

definition expression_char :: "char \<Rightarrow> bool" where
  "expression_char c \<longleftrightarrow>
     is_operand c \<or> is_additive c \<or> is_multiplicative c \<or> c = CHR ''('' \<or> c = CHR '')''"

definition postfix_char :: "char \<Rightarrow> bool" where
  "postfix_char c \<longleftrightarrow> is_operand c \<or> is_additive c \<or> is_multiplicative c"

text \<open>
  The number of brackets open after a string, from the number open before it; \<open>None\<close> when a
  close bracket comes with none open.
\<close>

fun bracket_depth :: "nat \<Rightarrow> string \<Rightarrow> nat option" where
  "bracket_depth d [] = Some d"
| "bracket_depth d (c # str) =
     (if c = CHR ''('' then bracket_depth (Suc d) str
      else if c = CHR '')'' then (case d of 0 \<Rightarrow> None | Suc d' \<Rightarrow> bracket_depth d' str)
      else bracket_depth d str)"

text \<open>The largest number of brackets open at once.\<close>

fun nesting :: "nat \<Rightarrow> string \<Rightarrow> nat" where
  "nesting d [] = d"
| "nesting d (c # str) =
     (if c = CHR ''('' then max d (nesting (Suc d) str)
      else if c = CHR '')'' then max d (nesting (d - 1) str)
      else nesting d str)"

definition well_formed :: "string \<Rightarrow> bool" where
  "well_formed str \<longleftrightarrow> list_all expression_char str \<and> bracket_depth 0 str = Some 0"

subsection \<open>The conversion on scopes\<close>

text \<open>
  What the handlers do when the stack is a list of scopes, each closed by its sentinel and
  each as \<open>scope_ok\<close> wants it. The proofs below show that the source's functions behave so
  (\<open>action_on_scopes\<close>, \<open>convert_on_scopes\<close>); the properties of whole runs are proved on this
  view. The result of a handler is \<open>True\<close> with the new scopes and output when it goes on to
  the next character, \<open>False\<close> when it returns.
\<close>

definition flatten :: "char list list \<Rightarrow> char list" where
  "flatten ss = concat (map (\<lambda>s. s @ [NUL]) ss)"

fun scope_handler ::
  "category \<Rightarrow> char \<Rightarrow> char list list \<Rightarrow> string \<Rightarrow> fault + bool \<times> char list list \<times> string"
where
  "scope_handler Invalid c ss out = Inr (False, ss, out @ error_text)"
| "scope_handler Operand c ss out = Inr (True, ss, out @ [c])"
| "scope_handler OpenBracket c ss out =
     (if length (flatten ss) < 64 then Inr (True, [] # ss, out) else Inl (Store_outside 64))"
| "scope_handler k c [] out = Inl (Load_outside (- 1))"
| "scope_handler EndOfInput c (s # ss) out = Inr (False, [] # ss, out @ s @ [CHR 0x0A])"
| "scope_handler AdditiveOp c (s # ss) out =
     (if length (flatten ss) < 63 then Inr (True, [c] # ss, out @ s)
      else Inl (Store_outside 64))"
| "scope_handler MultiplicativeOp c (s # ss) out =
     (let folded = (s \<noteq> [] \<and> is_multiplicative (hd s));
          s' = (if folded then tl s else s)
      in if length (flatten (s' # ss)) < 64
         then Inr (True, (c # s') # ss, out @ (if folded then [hd s] else []))
         else Inl (Store_outside 64))"
| "scope_handler CloseBracket c (s # ss) out = Inr (True, ss, out @ s)"

fun scope_run :: "string \<Rightarrow> char list list \<Rightarrow> string \<Rightarrow> fault + char list list \<times> string" where
  "scope_run [] ss out =
     (case scope_handler (classify NUL) NUL ss out of
        Inl f \<Rightarrow> Inl f
      | Inr (go_on, ss', out') \<Rightarrow> if go_on then Inl Read_past_terminator else Inr (ss', out'))"
| "scope_run (c # str) ss out =
     (case scope_handler (classify c) c ss out of
        Inl f \<Rightarrow> Inl f
      | Inr (go_on, ss', out') \<Rightarrow> if go_on then scope_run str ss' out' else Inr (ss', out'))"

definition represents :: "machine \<Rightarrow> char list list \<Rightarrow> string \<Rightarrow> bool" where
  "represents m ss out \<longleftrightarrow>
     stack_contents m = Some (flatten ss) \<and> list_all scope_ok ss \<and> stdout m = out"

section \<open>Properties\<close>

subsection \<open>The interval check and the classifier\<close>

lemma check_interval_bits:
  "check_interval v lo hi = of_bool (\<not> bit (hi - v) 31 \<and> \<not> bit (v - lo) 31)"
  unfolding check_interval_def
  by (rule bit_word_eqI) (auto simp add: bit_simps not_le)

lemma sign_bit_diff:
  fixes a b :: cint
  assumes "- (2 ^ 31) \<le> sint a - sint b" "sint a - sint b < 2 ^ 31"
  shows "bit (a - b) 31 \<longleftrightarrow> sint a < sint b"
proof -
  have "sint (a - b) = sint a - sint b"
    using assms by (simp add: sint_word_diff signed_take_bit_int_eq_self)
  moreover have "bit (a - b) 31 \<longleftrightarrow> sint (a - b) < 0"
    using bit_last_iff [of "a - b"] by simp
  ultimately show ?thesis by simp
qed

lemma check_interval_sint:
  assumes "- (2 ^ 31) \<le> sint hi - sint v" "sint hi - sint v < 2 ^ 31"
    and "- (2 ^ 31) \<le> sint v - sint lo" "sint v - sint lo < 2 ^ 31"
  shows "check_interval v lo hi = of_bool (sint lo \<le> sint v \<and> sint v \<le> sint hi)"
  using assms by (auto simp add: check_interval_bits sign_bit_diff)

lemma check_interval_high_bytes:
  assumes "0 \<le> sint low" "sint low \<le> 127" "0 \<le> sint high" "sint high \<le> 127"
    and "(128 \<le> sint v \<and> sint v \<le> 255) \<or> (- 128 \<le> sint v \<and> sint v \<le> - 1)"
  shows "check_interval v low high = 0"
proof -
  have "check_interval v low high = of_bool (sint low \<le> sint v \<and> sint v \<le> sint high)"
    using assms by (intro check_interval_sint) auto
  with assms show ?thesis by auto
qed

lemma of_char_int_range: "0 \<le> (of_char c :: int)" "(of_char c :: int) < 256"
proof -
  have "(of_char c :: int) = int (of_char c)" by (simp add: of_nat_of_char)
  then show "0 \<le> (of_char c :: int)" "(of_char c :: int) < 256"
    using nat_of_char_less_256 [of c] by simp_all
qed

lemma signed_byte:
  fixes n :: int
  assumes "0 \<le> n" "n < 256"
  shows "(n + 128) mod 256 - 128 = (if n < 128 then n else n - 256)"
proof (cases "n < 128")
  case True
  with assms have "(n + 128) mod 256 = n + 128" by (intro mod_pos_pos_trivial) simp_all
  with True show ?thesis by simp
next
  case False
  have "n + 128 = n - 128 + 256" by simp
  then have "(n + 128) mod 256 = (n - 128) mod 256" by (simp only: mod_add_self2)
  also have "\<dots> = n - 128" using assms False by (intro mod_pos_pos_trivial) simp_all
  finally show ?thesis using False by simp
qed

lemma sint_promote: "sint (promote c) = char_value c"
proof -
  have "(of_char c :: 8 word) = word_of_int (of_char c)"
    by (metis of_int_of_nat_eq of_nat_of_char)
  then have "sint (of_char c :: 8 word) = ((of_char c :: int) + 128) mod 256 - 128"
    by (simp only: int_word_sint) simp
  then have "sint (of_char c :: 8 word) = char_value c"
    using of_char_int_range [of c] unfolding char_value_def by (simp only: signed_byte)
  then show ?thesis
    by (simp add: promote_def sint_up_scast is_up)
qed

lemma char_value_range: "- 128 \<le> char_value c" "char_value c \<le> 127"
  using of_char_int_range [of c] by (auto simp add: char_value_def)

lemma char_value_eq_iff: "char_value c = char_value d \<longleftrightarrow> c = d"
proof
  assume "char_value c = char_value d"
  then have "(of_char c :: int) = of_char d"
    using of_char_int_range [of c] of_char_int_range [of d]
    by (auto simp add: char_value_def split: if_splits)
  then show "c = d" by simp
qed simp

lemma check_interval_char:
  assumes "- 1000 \<le> sint lo" "sint lo \<le> 1000" "- 1000 \<le> sint hi" "sint hi \<le> 1000"
  shows "check_interval (promote c) lo hi
           = of_bool (sint lo \<le> char_value c \<and> char_value c \<le> sint hi)"
proof -
  have "check_interval (promote c) lo hi
      = of_bool (sint lo \<le> sint (promote c) \<and> sint (promote c) \<le> sint hi)"
    using assms char_value_range [of c]
    by (intro check_interval_sint) (simp_all add: sint_promote)
  then show ?thesis by (simp add: sint_promote)
qed

lemma is_char_iff: "c = d \<longleftrightarrow> char_value c = char_value d"
  by (simp add: char_value_eq_iff)

lemma is_operand_iff: "is_operand c \<longleftrightarrow> 97 \<le> char_value c \<and> char_value c \<le> 122"
  unfolding is_operand_def
  apply (simp add: is_char_iff [of c])
  apply (simp add: char_value_def)
  apply arith
  done

lemma call_index_value:
  "call_index c =
     of_bool (char_value c = 0) * 1
     + of_bool (97 \<le> char_value c \<and> char_value c \<le> 122) * 2
     + of_bool (char_value c = 43) * 3
     + of_bool (char_value c = 45) * 3
     + of_bool (char_value c = 42) * 4
     + of_bool (char_value c = 47) * 4
     + of_bool (char_value c = 40) * 5
     + of_bool (char_value c = 41) * 6"
  unfolding call_index_def
  by (simp add: check_interval_char)

lemma literal_values:
  "char_value NUL = 0" "char_value CHR ''+'' = 43" "char_value CHR ''-'' = 45"
  "char_value CHR ''*'' = 42" "char_value CHR ''/'' = 47"
  "char_value CHR ''('' = 40" "char_value CHR '')'' = 41"
  by (simp_all add: char_value_def)

lemma classify_value:
  "classify c =
     (if char_value c = 0 then EndOfInput
      else if 97 \<le> char_value c \<and> char_value c \<le> 122 then Operand
      else if char_value c = 43 \<or> char_value c = 45 then AdditiveOp
      else if char_value c = 42 \<or> char_value c = 47 then MultiplicativeOp
      else if char_value c = 40 then OpenBracket
      else if char_value c = 41 then CloseBracket
      else Invalid)"
  unfolding classify_def is_operand_iff is_additive_def is_multiplicative_def
  by (simp only: is_char_iff [of c] literal_values)

lemma call_index_classify: "call_index c = handler_index (classify c)"
  unfolding call_index_value classify_value by simp

lemma call_table_handler: "table_entry call_table (handler_index k) = Inr (handler k)"
  by (cases k) (simp_all add: table_entry_def call_table_def)

lemma action_classify: "action c m = handler (classify c) c m"
  by (simp add: call_index_classify call_table_handler action_def and_then_def)

lemma class_values:
  "is_additive c \<longleftrightarrow> char_value c = 43 \<or> char_value c = 45"
  "is_multiplicative c \<longleftrightarrow> char_value c = 42 \<or> char_value c = 47"
  "c = CHR ''('' \<longleftrightarrow> char_value c = 40"
  "c = CHR '')'' \<longleftrightarrow> char_value c = 41"
  "c = NUL \<longleftrightarrow> char_value c = 0"
  unfolding is_additive_def is_multiplicative_def
  by (simp_all only: is_char_iff [of c] literal_values)

lemma classify_simps:
  "classify NUL = EndOfInput"
  "is_operand c \<Longrightarrow> classify c = Operand"
  "is_additive c \<Longrightarrow> classify c = AdditiveOp"
  "is_multiplicative c \<Longrightarrow> classify c = MultiplicativeOp"
  "classify CHR ''('' = OpenBracket"
  "classify CHR '')'' = CloseBracket"
  unfolding classify_value is_operand_iff class_values
  by (auto simp add: literal_values)

lemma expression_char_cases:
  assumes "expression_char c"
  obtains "is_operand c" "classify c = Operand"
  | "is_additive c" "classify c = AdditiveOp" "\<not> is_operand c"
  | "is_multiplicative c" "classify c = MultiplicativeOp" "\<not> is_operand c"
  | "c = CHR ''(''" "classify c = OpenBracket" "\<not> is_operand c"
  | "c = CHR '')''" "classify c = CloseBracket" "\<not> is_operand c"
  using assms unfolding expression_char_def classify_value is_operand_iff class_values
  by (elim disjE) auto

lemma classify_cases:
  "classify c = Operand \<Longrightarrow> is_operand c"
  "classify c = AdditiveOp \<Longrightarrow> is_additive c"
  "classify c = MultiplicativeOp \<Longrightarrow> is_multiplicative c"
  by (auto simp add: classify_def split: if_splits)

text \<open>
  Claim C10. If neither \<open>high - value\<close> nor \<open>value - low\<close> overflows a 32-bit \<open>int\<close>, then
  \<open>check_interval(value, low, high)\<close> is 1 when \<open>low \<le> value \<le> high\<close> and 0 otherwise. The
  result is computed from the sign bits (bit 31) of the two differences only: it is 1 exactly
  when both are clear, for all arguments. No difference overflows when the value is a
  \<open>char\<close> and the bounds are between \<open>-128\<close> and \<open>127\<close>, as in every call of the program.
\<close>

theorem check_interval_correct:
  "(no_overflow high v \<and> no_overflow v low \<longrightarrow>
      check_interval v low high = (if sint low \<le> sint v \<and> sint v \<le> sint high then 1 else 0))
   \<and> check_interval v low high = of_bool (\<not> bit (high - v) 31 \<and> \<not> bit (v - low) 31)
   \<and> (- 128 \<le> sint low \<and> sint low \<le> 127 \<and> - 128 \<le> sint high \<and> sint high \<le> 127 \<longrightarrow>
        (\<forall>c. no_overflow high (promote c) \<and> no_overflow (promote c) low))"
proof -
  have "check_interval v low high = (if sint low \<le> sint v \<and> sint v \<le> sint high then 1 else 0)"
    if "no_overflow high v" "no_overflow v low"
    using that by (simp add: no_overflow_def check_interval_sint)
  moreover have "check_interval v low high
      = of_bool (\<not> bit (high - v) 31 \<and> \<not> bit (v - low) 31)"
    by (rule check_interval_bits)
  moreover have "no_overflow high (promote c) \<and> no_overflow (promote c) low"
    if "- 128 \<le> sint low \<and> sint low \<le> 127 \<and> - 128 \<le> sint high \<and> sint high \<le> 127" for c
    using that char_value_range [of c] by (simp add: no_overflow_def sint_promote)
  ultimately show ?thesis by blast
qed

theorem check_interval_correct_witness:
  "no_overflow 122 98 \<and> no_overflow 98 97 \<and> check_interval 98 97 122 = 1
   \<and> no_overflow 122 96 \<and> no_overflow 96 97 \<and> check_interval 96 97 122 = 0
   \<and> no_overflow 127 (- 3) \<and> no_overflow (- 3) 1 \<and> check_interval (- 3) 1 127 = 0
   \<and> no_overflow 122 (promote CHR ''q'') \<and> no_overflow (promote CHR ''q'') 97"
proof -
  have "no_overflow 122 98" "no_overflow 98 97" "no_overflow 122 96" "no_overflow 96 97"
    "no_overflow 127 (- 3)" "no_overflow (- 3) 1"
    by (simp_all add: no_overflow_def)
  moreover have "- 128 \<le> sint (97 :: cint) \<and> sint (97 :: cint) \<le> 127
      \<and> - 128 \<le> sint (122 :: cint) \<and> sint (122 :: cint) \<le> 127"
    by simp
  ultimately show ?thesis
    using check_interval_correct [of 122 98 97] check_interval_correct [of 122 96 97]
      check_interval_correct [of 127 "- 3" 1]
    by simp
qed

text \<open>
  Claim C9. Every character gets exactly one category: the index that \<open>convert\<close> computes
  as the sum of the interval checks is the index of the handler of the category of the
  character, the call through \<open>call_table\<close> at that index is inside the table, and it is
  the call of that handler. The tests of the categories exclude each other: each category is
  characterised by its own test alone, and \<open>Invalid\<close> by the failure of all of them.
\<close>

theorem classifier_dispatch:
  "call_index c = handler_index (classify c)
   \<and> table_entry call_table (call_index c) = Inr (handler (classify c))
   \<and> action c m = handler (classify c) c m
   \<and> (classify c = EndOfInput) = (c = NUL)
   \<and> (classify c = Operand) = is_operand c
   \<and> (classify c = AdditiveOp) = is_additive c
   \<and> (classify c = MultiplicativeOp) = is_multiplicative c
   \<and> (classify c = OpenBracket) = (c = CHR ''('')
   \<and> (classify c = CloseBracket) = (c = CHR '')'')
   \<and> (classify c = Invalid) =
         (c \<noteq> NUL \<and> \<not> is_operand c \<and> \<not> is_additive c \<and> \<not> is_multiplicative c
          \<and> c \<noteq> CHR ''('' \<and> c \<noteq> CHR '')'')"
proof -
  have "call_index c = handler_index (classify c)"
    by (rule call_index_classify)
  moreover have "table_entry call_table (call_index c) = Inr (handler (classify c))"
    by (simp add: call_index_classify call_table_handler)
  moreover have "action c m = handler (classify c) c m"
    by (simp add: call_index_classify call_table_handler action_def and_then_def)
  moreover have "(classify c = EndOfInput) = (c = NUL)"
    and "(classify c = Operand) = is_operand c"
    and "(classify c = AdditiveOp) = is_additive c"
    and "(classify c = MultiplicativeOp) = is_multiplicative c"
    and "(classify c = OpenBracket) = (c = CHR ''('')"
    and "(classify c = CloseBracket) = (c = CHR '')'')"
    and "(classify c = Invalid) =
         (c \<noteq> NUL \<and> \<not> is_operand c \<and> \<not> is_additive c \<and> \<not> is_multiplicative c
          \<and> c \<noteq> CHR ''('' \<and> c \<noteq> CHR '')'')"
    by (auto simp add: classify_def is_operand_def is_additive_def is_multiplicative_def)
  ultimately show ?thesis by blast
qed

subsection \<open>The stack operations on the list of the stack\<close>

lemma cells_length: "cells h n = Some xs \<Longrightarrow> length xs = n"
  by (induction n arbitrary: xs) (auto split: option.splits)

lemma cells_update_above: "n \<le> k \<Longrightarrow> cells (h(int k \<mapsto> c)) n = cells h n"
  by (induction n) (auto split: option.splits)

lemma cells_Suc_iff:
  "cells h (Suc n) = Some (x # xs) \<longleftrightarrow> h (int n) = Some x \<and> cells h n = Some xs"
  by (auto split: option.splits)

lemma stack_contents_top:
  assumes "stack_contents m = Some stk"
  shows "stack_top m = int (length stk) - 1" and "length stk \<le> 64"
proof -
  from assms have range: "- 1 \<le> stack_top m" "stack_top m < 64"
    and c: "cells (heap m) (nat (stack_top m + 1)) = Some stk"
    by (auto simp add: stack_contents_def split: if_splits)
  from cells_length [OF c] range show "stack_top m = int (length stk) - 1" by simp
  with range show "length stk \<le> 64" by simp
qed

lemma stack_contents_Cons:
  assumes "stack_contents m = Some (x # xs)"
  shows "heap m (stack_top m) = Some x" and "cells (heap m) (length xs) = Some xs"
    and "0 \<le> stack_top m" and "stack_top m < 64"
proof -
  have top: "stack_top m = int (length xs)"
    using stack_contents_top(1) [OF assms] by simp
  have "length (x # xs) \<le> 64" using stack_contents_top(2) [OF assms] .
  with top show "0 \<le> stack_top m" "stack_top m < 64" by simp_all
  from assms top have "cells (heap m) (Suc (length xs)) = Some (x # xs)"
    by (simp add: stack_contents_def nat_add_distrib split: if_splits)
  then show "heap m (stack_top m) = Some x" "cells (heap m) (length xs) = Some xs"
    by (simp_all only: cells_Suc_iff top)
qed

lemma stack_contents_lower:
  assumes "stack_contents m = Some (x # xs)"
  shows "stack_contents (m\<lparr>stack_top := stack_top m - 1\<rparr>) = Some xs"
proof -
  have "stack_top m = int (length xs)"
    using stack_contents_top(1) [OF assms] by simp
  then show ?thesis
    using stack_contents_Cons(2) [OF assms] stack_contents_top(2) [OF assms]
    by (simp add: stack_contents_def)
qed

lemma is_NUL_check: "check_interval (promote x) 0 0 = of_bool (x = NUL)"
proof -
  have "check_interval (promote x) 0 0 = of_bool (0 \<le> char_value x \<and> char_value x \<le> 0)"
    by (simp add: check_interval_char)
  also have "(0 \<le> char_value x \<and> char_value x \<le> 0) \<longleftrightarrow> char_value x = char_value NUL"
    by (auto simp add: literal_values)
  finally show ?thesis by (simp only: char_value_eq_iff)
qed

lemma pop_empty: "stack_contents m = Some [] \<Longrightarrow> pop m = Inl (Load_outside (- 1))"
  using stack_contents_top(1) [of m "[]"] by (simp add: pop_def load_def and_then_def)

lemma pop_Cons:
  assumes "stack_contents m = Some (x # xs)"
  shows "\<exists>m'. pop m = Inr (x, m')
           \<and> stack_contents m' = Some (if x = NUL then x # xs else xs) \<and> stdout m' = stdout m"
proof (cases "x = NUL")
  case True
  then have "pop m = Inr (x, m)"
    using stack_contents_Cons [OF assms] 
    by (simp add: pop_def load_def and_then_def is_NUL_check)
  with assms True show ?thesis by simp
next
  case False
  then have "pop m = Inr (x, m\<lparr>stack_top := stack_top m - 1\<rparr>)"
    using stack_contents_Cons [OF assms] 
    by (simp add: pop_def load_def and_then_def is_NUL_check)
  with stack_contents_lower [OF assms] False show ?thesis by simp
qed

lemma stack_contents_stdout [simp]: "stack_contents (m\<lparr>stdout := out\<rparr>) = stack_contents m"
  by (simp add: stack_contents_def)

lemma push_full:
  assumes "stack_contents m = Some xs" and "\<not> length xs < 64"
  shows "push c m = Inl (Store_outside 64)"
  using stack_contents_top [OF assms(1)] assms(2) by (simp add: push_def store_def)

lemma push_room:
  assumes "stack_contents m = Some xs" and "length xs < 64"
  shows "\<exists>m'. push c m = Inr m' \<and> stack_contents m' = Some (c # xs) \<and> stdout m' = stdout m"
proof -
  have top: "stack_top m = int (length xs) - 1"
    using stack_contents_top(1) [OF assms(1)] .
  have c: "cells (heap m) (length xs) = Some xs"
    using assms(1) top by (simp add: stack_contents_def split: if_splits)
  let ?m' = "m\<lparr>stack_top := int (length xs), heap := (heap m)(int (length xs) \<mapsto> c)\<rparr>"
  have "push c m = Inr ?m'"
    using top assms(2) by (simp add: push_def store_def)
  moreover have "stack_contents ?m' = Some (c # xs)"
    using assms(2) c by (simp add: stack_contents_def nat_add_distrib cells_update_above)
  ultimately show ?thesis by simp
qed

lemma pop0_empty: "stack_contents m = Some [] \<Longrightarrow> pop0 m = Inl (Load_outside (- 1))"
  using stack_contents_top(1) [of m "[]"] by (simp add: pop0_def load_def and_then_def)

lemma pop0_Cons:
  assumes "stack_contents m = Some (x # xs)"
  shows "\<exists>m'. pop0 m = Inr m'
           \<and> stack_contents m' = Some (if x = NUL then xs else x # xs) \<and> stdout m' = stdout m"
proof (cases "x = NUL")
  case True
  then have "pop0 m = Inr (m\<lparr>stack_top := stack_top m - 1\<rparr>)"
    using stack_contents_Cons [OF assms]
    by (simp add: pop0_def load_def and_then_def is_NUL_check)
  with stack_contents_lower [OF assms] True show ?thesis by simp
next
  case False
  then have "pop0 m = Inr m"
    using stack_contents_Cons [OF assms]
    by (simp add: pop0_def load_def and_then_def is_NUL_check)
  with assms False show ?thesis by simp
qed

lemma print_symbol_eq:
  "print_symbol c m = Inr (if 1 \<le> char_value c then m\<lparr>stdout := stdout m @ [c]\<rparr> else m)"
  using char_value_range [of c]
  by (simp add: print_symbol_def check_interval_char table_entry_def print_call_table_def
      and_then_def print_char_def print_nothing_def)

lemma is_multiplicative_check:
  "check_interval (promote x) 42 42 OR check_interval (promote x) 47 47
   = of_bool (is_multiplicative x)"
proof -
  have "is_multiplicative x \<longleftrightarrow> char_value x = 42 \<or> char_value x = 47"
    unfolding is_multiplicative_def by (simp only: is_char_iff [of x] literal_values)
  then show ?thesis
    by (auto simp add: check_interval_char)
qed

lemma pop_mul_div_empty:
  "stack_contents m = Some [] \<Longrightarrow> pop_mul_div m = Inl (Load_outside (- 1))"
  using stack_contents_top(1) [of m "[]"] by (simp add: pop_mul_div_def load_def and_then_def)

lemma pop_mul_div_Cons:
  assumes "stack_contents m = Some (x # xs)"
  shows "\<exists>m'. pop_mul_div m = Inr (if is_multiplicative x then x else NUL, m')
           \<and> stack_contents m' = Some (if is_multiplicative x then xs else x # xs)
           \<and> stdout m' = stdout m"
proof (cases "is_multiplicative x")
  case True
  then have "to_char (promote x * 1) = x"
    by (auto simp add: is_multiplicative_def to_char_def promote_def char_of_def)
  with True have "pop_mul_div m = Inr (x, m\<lparr>stack_top := stack_top m - 1\<rparr>)"
    using stack_contents_Cons [OF assms]
    by (simp add: pop_mul_div_def load_def and_then_def is_multiplicative_check Let_def)
  with stack_contents_lower [OF assms] True show ?thesis by simp
next
  case False
  have "to_char 0 = NUL"
    by (simp add: to_char_def char_of_def)
  with False have "pop_mul_div m = Inr (NUL, m)"
    using stack_contents_Cons [OF assms]
    by (simp add: pop_mul_div_def load_def and_then_def is_multiplicative_check Let_def)
  with assms False show ?thesis by simp
qed

lemma pop_sentinel:
  assumes "stack_contents m = Some (NUL # xs)"
  shows "pop m = Inr (NUL, m)" and "print_symbol NUL m = Inr m"
proof -
  show "pop m = Inr (NUL, m)"
    using stack_contents_Cons [OF assms]
    by (simp add: pop_def load_def and_then_def is_NUL_check)
  show "print_symbol NUL m = Inr m"
    by (simp add: print_symbol_eq literal_values)
qed

lemma pop_mul_div_other:
  assumes "stack_contents m = Some (x # xs)" and "\<not> is_multiplicative x"
  shows "pop_mul_div m = Inr (NUL, m)"
proof -
  have "to_char 0 = NUL"
    by (simp add: to_char_def char_of_def)
  with assms(2) show ?thesis
    using stack_contents_Cons [OF assms(1)]
    by (simp add: pop_mul_div_def load_def and_then_def is_multiplicative_check Let_def)
qed

subsection \<open>The handlers on the list of the stack\<close>

lemma pop_print_empty:
  "stack_contents m = Some [] \<Longrightarrow>
     and_then (pop m) (\<lambda>(c1, m1). and_then (print_symbol c1 m1) k) = Inl (Load_outside (- 1))"
  by (simp add: pop_empty and_then_def)

lemma pop_print_Cons:
  assumes "stack_contents m = Some (x # xs)"
  shows "\<exists>m'. stack_contents m' = Some (if x = NUL then x # xs else xs)
           \<and> stdout m' = (if 1 \<le> char_value x then stdout m @ [x] else stdout m)
           \<and> (\<forall>k :: machine \<Rightarrow> fault + flow. and_then (pop m) (\<lambda>(c1, m1). and_then (print_symbol c1 m1) k) = k m')"
proof -
  from pop_Cons [OF assms] obtain m1 where m1: "pop m = Inr (x, m1)"
    "stack_contents m1 = Some (if x = NUL then x # xs else xs)" "stdout m1 = stdout m"
    by blast
  let ?m' = "if 1 \<le> char_value x then m1\<lparr>stdout := stdout m1 @ [x]\<rparr> else m1"
  have "and_then (pop m) (\<lambda>(c1, m1). and_then (print_symbol c1 m1) k) = k ?m'" for k :: "machine \<Rightarrow> fault + flow"
    by (simp add: m1(1) print_symbol_eq and_then_def)
  moreover have "stack_contents ?m' = Some (if x = NUL then x # xs else xs)"
    using m1(2) by simp
  moreover have "stdout ?m' = (if 1 \<le> char_value x then stdout m @ [x] else stdout m)"
    using m1(3) by simp
  ultimately show ?thesis by blast
qed

lemma operator_value:
  assumes "is_additive x \<or> is_multiplicative x"
  shows "1 \<le> char_value x" and "x \<noteq> NUL"
  using assms by (auto simp add: is_additive_def is_multiplicative_def char_value_def)

lemma flush_list:
  assumes "stack_contents m = Some stk" and "NUL \<in> set stk" and "list_all stack_char stk"
  defines "flushed \<equiv> take 2 (takeWhile (\<lambda>x. x \<noteq> NUL) stk)"
  shows "\<exists>m'. stack_contents m' = Some (drop (length flushed) stk)
           \<and> stdout m' = stdout m @ flushed
           \<and> (\<forall>k :: machine \<Rightarrow> fault + flow. and_then (pop m) (\<lambda>(c1, m1). and_then (print_symbol c1 m1) (\<lambda>m2.
                   and_then (pop m2) (\<lambda>(c2, m3). and_then (print_symbol c2 m3) k))) = k m')"
proof -
  from assms(2) obtain x xs where stk: "stk = x # xs" by (cases stk) auto
  from pop_print_Cons [OF assms(1) [unfolded stk]] obtain m2
    where m2: "stack_contents m2 = Some (if x = NUL then x # xs else xs)"
      "stdout m2 = (if 1 \<le> char_value x then stdout m @ [x] else stdout m)"
      "\<And>k :: machine \<Rightarrow> fault + flow. and_then (pop m) (\<lambda>(c1, m1). and_then (print_symbol c1 m1) k) = k m2"
    by blast
  show ?thesis
  proof (cases "x = NUL")
    case True
    from pop_print_Cons [of m2 x xs] m2(1) True obtain m4
      where m4: "stack_contents m4 = Some (x # xs)" "stdout m4 = stdout m2"
        "\<And>k :: machine \<Rightarrow> fault + flow. and_then (pop m2) (\<lambda>(c1, m1). and_then (print_symbol c1 m1) k) = k m4"
      by (auto simp add: literal_values)
    have chain: "and_then (pop m) (\<lambda>(c1, m1). and_then (print_symbol c1 m1) (\<lambda>m2.
        and_then (pop m2) (\<lambda>(c2, m3). and_then (print_symbol c2 m3) k))) = k m4" for k :: "machine \<Rightarrow> fault + flow"
      by (simp only: m2(3) m4(3))
    have "flushed = []" using True by (simp add: flushed_def stk)
    with m4(1,2) m2(2) True chain show ?thesis
      by (intro exI [of _ m4]) (simp add: stk literal_values)
  next
    case False
    with assms(3) have x: "1 \<le> char_value x"
      using operator_value(1) [of x] by (simp add: stk stack_char_def)
    from assms(2) False obtain y ys where xs: "xs = y # ys" by (cases xs) (auto simp add: stk)
    from pop_print_Cons [of m2 y ys] m2(1) False xs obtain m4
      where m4: "stack_contents m4 = Some (if y = NUL then y # ys else ys)"
        "stdout m4 = (if 1 \<le> char_value y then stdout m2 @ [y] else stdout m2)"
        "\<And>k :: machine \<Rightarrow> fault + flow. and_then (pop m2) (\<lambda>(c1, m1). and_then (print_symbol c1 m1) k) = k m4"
      by auto
    have chain: "and_then (pop m) (\<lambda>(c1, m1). and_then (print_symbol c1 m1) (\<lambda>m2.
        and_then (pop m2) (\<lambda>(c2, m3). and_then (print_symbol c2 m3) k))) = k m4" for k :: "machine \<Rightarrow> fault + flow"
      by (simp only: m2(3) m4(3))
    show ?thesis
    proof (cases "y = NUL")
      case True
      then have "flushed = [x]" using False by (simp add: flushed_def stk xs)
      with m4(1,2) m2(2) x True False chain show ?thesis
        by (intro exI [of _ m4]) (simp add: stk xs literal_values)
    next
      case yF: False
      with assms(3) have y: "1 \<le> char_value y"
        using operator_value(1) [of y] by (simp add: stk xs stack_char_def)
      have "flushed = [x, y]" using False yF by (simp add: flushed_def stk xs)
      with m4(1,2) m2(2) x y yF False chain show ?thesis
        by (intro exI [of _ m4]) (simp add: stk xs)
    qed
  qed
qed

lemma handle_add_sub_list:
  assumes "stack_contents m = Some stk" and "NUL \<in> set stk" and "list_all stack_char stk"
  defines "flushed \<equiv> take 2 (takeWhile (\<lambda>x. x \<noteq> NUL) stk)"
  shows "if length stk - length flushed < 64
         then \<exists>m'. handle_add_sub c m = Inr (Recurse m')
                \<and> stack_contents m' = Some (c # drop (length flushed) stk)
                \<and> stdout m' = stdout m @ flushed
         else handle_add_sub c m = Inl (Store_outside 64)"
proof -
  from flush_list [OF assms(1-3)] obtain m4
    where m4: "stack_contents m4 = Some (drop (length flushed) stk)"
      "stdout m4 = stdout m @ flushed"
      "handle_add_sub c m = and_then (push c m4) (\<lambda>m5. Inr (Recurse m5))"
    unfolding handle_add_sub_def flushed_def by blast
  show ?thesis
  proof (cases "length stk - length flushed < 64")
    case True
    with push_room [OF m4(1), of c] obtain m5
      where "push c m4 = Inr m5" "stack_contents m5 = Some (c # drop (length flushed) stk)"
        "stdout m5 = stdout m4"
      by auto
    with m4 True show ?thesis by (simp add: and_then_def)
  next
    case False
    with push_full [OF m4(1), of c] m4(3) show ?thesis by (simp add: and_then_def)
  qed
qed

lemma handle_end_list:
  assumes "stack_contents m = Some stk" and "NUL \<in> set stk" and "list_all stack_char stk"
  defines "flushed \<equiv> take 2 (takeWhile (\<lambda>x. x \<noteq> NUL) stk)"
  shows "\<exists>m'. handle_end c m = Inr (Return m')
           \<and> stack_contents m' = Some (drop (length flushed) stk)
           \<and> stdout m' = stdout m @ flushed @ [CHR 0x0A]"
proof -
  from flush_list [OF assms(1-3)] obtain m4
    where m4: "stack_contents m4 = Some (drop (length flushed) stk)"
      "stdout m4 = stdout m @ flushed"
      "handle_end c m = Inr (Return (printf [CHR 0x0A] m4))"
    unfolding handle_end_def flushed_def by blast
  then show ?thesis by (simp add: printf_def)
qed

lemma handle_close_bracket_list:
  assumes "stack_contents m = Some stk" and "NUL \<in> set stk" and "list_all stack_char stk"
  defines "flushed \<equiv> take 2 (takeWhile (\<lambda>x. x \<noteq> NUL) stk)"
  defines "rest \<equiv> drop (length flushed) stk"
  shows "\<exists>m'. handle_close_bracket c m = Inr (Recurse m')
           \<and> stack_contents m' = Some (if hd rest = NUL then tl rest else rest)
           \<and> stdout m' = stdout m @ flushed"
proof -
  from flush_list [OF assms(1-3)] obtain m4
    where m4: "stack_contents m4 = Some rest" "stdout m4 = stdout m @ flushed"
      "handle_close_bracket c m = and_then (pop0 m4) (\<lambda>m5. Inr (Recurse m5))"
    unfolding handle_close_bracket_def flushed_def rest_def by blast
  have "length flushed \<le> length (takeWhile (\<lambda>x. x \<noteq> NUL) stk)"
    by (simp add: flushed_def)
  also have "\<dots> < length stk"
    using assms(2) by (induction stk) auto
  finally have "rest \<noteq> []" by (simp add: rest_def)
  then obtain y ys where rest: "rest = y # ys" by (cases rest) auto
  from pop0_Cons [OF m4(1) [unfolded rest]] obtain m5
    where "pop0 m4 = Inr m5" "stack_contents m5 = Some (if y = NUL then ys else y # ys)"
      "stdout m5 = stdout m4"
    by blast
  with m4(2,3) show ?thesis by (simp add: rest and_then_def)
qed

lemma handle_mul_div_list:
  assumes "stack_contents m = Some (x # xs)"
  shows "if is_multiplicative x
         then \<exists>m'. handle_mul_div c m = Inr (Recurse m')
                \<and> stack_contents m' = Some (c # xs) \<and> stdout m' = stdout m @ [x]
         else if length (x # xs) < 64
         then \<exists>m'. handle_mul_div c m = Inr (Recurse m')
                \<and> stack_contents m' = Some (c # x # xs) \<and> stdout m' = stdout m
         else handle_mul_div c m = Inl (Store_outside 64)"
proof -
  from pop_mul_div_Cons [OF assms] obtain m1
    where m1: "pop_mul_div m = Inr (if is_multiplicative x then x else NUL, m1)"
      "stack_contents m1 = Some (if is_multiplicative x then xs else x # xs)"
      "stdout m1 = stdout m"
    by blast
  show ?thesis
  proof (cases "is_multiplicative x")
    case True
    let ?m2 = "m1\<lparr>stdout := stdout m @ [x]\<rparr>"
    have "length xs < 64" using stack_contents_top(2) [OF assms] by simp
    moreover have "stack_contents ?m2 = Some xs" using m1(2) True by simp
    ultimately obtain m3 where "push c ?m2 = Inr m3" "stack_contents m3 = Some (c # xs)"
      "stdout m3 = stdout ?m2"
      using push_room [of ?m2 xs c] by blast
    moreover have "handle_mul_div c m = and_then (push c ?m2) (\<lambda>m3. Inr (Recurse m3))"
      using True operator_value(1) [of x]
      by (simp add: handle_mul_div_def m1(1,3) print_symbol_eq and_then_def)
    ultimately show ?thesis using True by (simp add: and_then_def)
  next
    case False
    have h: "handle_mul_div c m = and_then (push c m1) (\<lambda>m3. Inr (Recurse m3))"
      using False
      by (simp add: handle_mul_div_def m1(1) print_symbol_eq and_then_def literal_values)
    from False m1(2) have c1: "stack_contents m1 = Some (x # xs)" by simp
    show ?thesis
    proof (cases "length (x # xs) < 64")
      case True
      with push_room [OF c1, of c] obtain m3 where "push c m1 = Inr m3"
        "stack_contents m3 = Some (c # x # xs)" "stdout m3 = stdout m1"
        by blast
      with h m1(3) False True show ?thesis by (simp add: and_then_def)
    next
      case F: False
      with push_full [OF c1, of c] h False show ?thesis by (simp add: and_then_def)
    qed
  qed
qed

lemma handle_open_bracket_list:
  assumes "stack_contents m = Some stk"
  shows "if length stk < 64
         then \<exists>m'. handle_open_bracket c m = Inr (Recurse m')
                \<and> stack_contents m' = Some (NUL # stk) \<and> stdout m' = stdout m
         else handle_open_bracket c m = Inl (Store_outside 64)"
proof (cases "length stk < 64")
  case True
  with push_room [OF assms, of NUL] show ?thesis
    by (auto simp add: handle_open_bracket_def and_then_def)
next
  case False
  with push_full [OF assms, of NUL] show ?thesis
    by (simp add: handle_open_bracket_def and_then_def)
qed

lemma handlers_below_floor:
  assumes "stack_contents m = Some []"
  shows "handle_end c m = Inl (Load_outside (- 1))"
    and "handle_add_sub c m = Inl (Load_outside (- 1))"
    and "handle_mul_div c m = Inl (Load_outside (- 1))"
    and "handle_close_bracket c m = Inl (Load_outside (- 1))"
  using assms
  by (simp_all add: handle_end_def handle_add_sub_def handle_mul_div_def
      handle_close_bracket_def pop_empty pop_mul_div_empty and_then_def)

text \<open>
  Claim C3. Reading \<open>+\<close> or \<open>-\<close> in a state whose stack holds sentinels and operators, with
  a sentinel at its bottom: the handler pops and prints the first two of the pending
  operators of the current scope, or all of them if there are fewer, leaves the sentinel of
  the scope and everything below it in place, then pushes the operator read and goes on to
  the next character. A pop that finds the sentinel on top returns the state as it was, and
  printing what it returned prints nothing, however often it is repeated. The push needs a
  byte of the block free above what the flush has left.
\<close>

theorem additive_operator_flush:
  assumes "stack_contents m = Some stk" and "NUL \<in> set stk" and "list_all stack_char stk"
    and "is_additive c"
    and "length stk - length (take 2 (pending stk)) < 64"
  shows "(\<exists>m'. action c m = Inr (Recurse m')
            \<and> stack_contents m' = Some (c # drop (length (take 2 (pending stk))) stk)
            \<and> stdout m' = stdout m @ take 2 (pending stk))
       \<and> (hd stk = NUL \<longrightarrow> pop m = Inr (NUL, m) \<and> print_symbol NUL m = Inr m)"
proof
  show "\<exists>m'. action c m = Inr (Recurse m')
            \<and> stack_contents m' = Some (c # drop (length (take 2 (pending stk))) stk)
            \<and> stdout m' = stdout m @ take 2 (pending stk)"
    using handle_add_sub_list [OF assms(1-3), of c] assms(4,5)
    by (simp add: action_classify classify_simps pending_def)
  show "hd stk = NUL \<longrightarrow> pop m = Inr (NUL, m) \<and> print_symbol NUL m = Inr m"
    using assms(1,2) pop_sentinel [of m "tl stk"] by (cases stk) auto
qed

theorem additive_operator_flush_witness:
  "stack_contents \<lparr>stack_top = 2, heap = [0 \<mapsto> NUL, 1 \<mapsto> CHR ''+'', 2 \<mapsto> CHR ''*''],
       stdout = ''abc''\<rparr> = Some [CHR ''*'', CHR ''+'', NUL]
   \<and> is_additive CHR ''-''
   \<and> (\<exists>m'. action CHR ''-'' \<lparr>stack_top = 2,
               heap = [0 \<mapsto> NUL, 1 \<mapsto> CHR ''+'', 2 \<mapsto> CHR ''*''], stdout = ''abc''\<rparr>
             = Inr (Recurse m')
          \<and> stack_contents m' = Some [CHR ''-'', NUL] \<and> stdout m' = ''abc*+'')
   \<and> stack_contents initial = Some [NUL]
   \<and> pop initial = Inr (NUL, initial) \<and> print_symbol NUL initial = Inr initial
   \<and> (\<exists>m'. action CHR ''-'' initial = Inr (Recurse m')
          \<and> stack_contents m' = Some [CHR ''-'', NUL] \<and> stdout m' = [])"
proof -
  let ?m = "\<lparr>stack_top = 2, heap = [0 \<mapsto> NUL, 1 \<mapsto> CHR ''+'', 2 \<mapsto> CHR ''*''],
    stdout = ''abc''\<rparr>"
  let ?stk = "[CHR ''*'', CHR ''+'', NUL]"
  have 1: "stack_contents ?m = Some ?stk"
    by (simp add: stack_contents_def eval_nat_numeral)
  have 2: "NUL \<in> set ?stk" by simp
  have 3: "list_all stack_char ?stk"
    by (simp add: stack_char_def is_additive_def is_multiplicative_def)
  have 4: "is_additive CHR ''-''" by (simp add: is_additive_def)
  have 5: "length ?stk - length (take 2 (pending ?stk)) < 64" by simp
  have i1: "stack_contents initial = Some [NUL]"
    by (simp add: stack_contents_def initial_def)
  have i2: "NUL \<in> set [NUL]" by simp
  have i3: "list_all stack_char [NUL]" by (simp add: stack_char_def)
  have i5: "length [NUL] - length (take 2 (pending [NUL])) < 64" by simp
  have out: "stdout initial = []" by (simp add: initial_def)
  from additive_operator_flush [OF 1 2 3 4 5] additive_operator_flush [OF i1 i2 i3 4 i5]
    1 4 i1 out
  show ?thesis
    by (simp add: pending_def)
qed

text \<open>
  Claim C4. Reading \<open>*\<close> or \<open>/\<close> in a state with a stack that is not empty: if the top
  entry is \<open>*\<close> or \<open>/\<close>, that one entry is popped and printed and the operator read takes
  its place. If the top entry is anything else (an additive operator or a sentinel, the one
  at the bottom included), \<open>pop_mul_div\<close> returns the state as it was and nothing is
  printed; the operator read is pushed on top of it, which needs a free byte of the block.
  In both cases the handler goes on to the next character.
\<close>

theorem multiplicative_operator_flush:
  assumes "stack_contents m = Some (x # xs)" and "is_multiplicative c"
  shows "(is_multiplicative x \<longrightarrow>
            (\<exists>m'. action c m = Inr (Recurse m')
               \<and> stack_contents m' = Some (c # xs) \<and> stdout m' = stdout m @ [x]))
       \<and> (\<not> is_multiplicative x \<longrightarrow>
            pop_mul_div m = Inr (NUL, m) \<and> print_symbol NUL m = Inr m
            \<and> (length (x # xs) < 64 \<longrightarrow>
                 (\<exists>m'. action c m = Inr (Recurse m')
                    \<and> stack_contents m' = Some (c # x # xs) \<and> stdout m' = stdout m)))"
  using handle_mul_div_list [OF assms(1), of c] assms(2) pop_mul_div_other [OF assms(1)]
  by (simp add: action_classify classify_simps print_symbol_eq literal_values)

theorem multiplicative_operator_flush_witness:
  "stack_contents \<lparr>stack_top = 2, heap = [0 \<mapsto> NUL, 1 \<mapsto> CHR ''+'', 2 \<mapsto> CHR ''*''],
       stdout = ''abc''\<rparr> = Some [CHR ''*'', CHR ''+'', NUL]
   \<and> is_multiplicative CHR ''/''
   \<and> (\<exists>m'. action CHR ''/'' \<lparr>stack_top = 2,
               heap = [0 \<mapsto> NUL, 1 \<mapsto> CHR ''+'', 2 \<mapsto> CHR ''*''], stdout = ''abc''\<rparr>
             = Inr (Recurse m')
          \<and> stack_contents m' = Some [CHR ''/'', CHR ''+'', NUL] \<and> stdout m' = ''abc*'')
   \<and> stack_contents \<lparr>stack_top = 1, heap = [0 \<mapsto> NUL, 1 \<mapsto> CHR ''+''],
       stdout = ''ab''\<rparr> = Some [CHR ''+'', NUL]
   \<and> \<not> is_multiplicative CHR ''+''
   \<and> pop_mul_div \<lparr>stack_top = 1, heap = [0 \<mapsto> NUL, 1 \<mapsto> CHR ''+''], stdout = ''ab''\<rparr>
       = Inr (NUL, \<lparr>stack_top = 1, heap = [0 \<mapsto> NUL, 1 \<mapsto> CHR ''+''], stdout = ''ab''\<rparr>)
   \<and> (\<exists>m'. action CHR ''/'' \<lparr>stack_top = 1, heap = [0 \<mapsto> NUL, 1 \<mapsto> CHR ''+''],
               stdout = ''ab''\<rparr>
             = Inr (Recurse m')
          \<and> stack_contents m' = Some [CHR ''/'', CHR ''+'', NUL] \<and> stdout m' = ''ab'')"
proof -
  let ?m = "\<lparr>stack_top = 2, heap = [0 \<mapsto> NUL, 1 \<mapsto> CHR ''+'', 2 \<mapsto> CHR ''*''],
    stdout = ''abc''\<rparr>"
  let ?n = "\<lparr>stack_top = 1, heap = [0 \<mapsto> NUL, 1 \<mapsto> CHR ''+''], stdout = ''ab''\<rparr>"
  have m: "stack_contents ?m = Some [CHR ''*'', CHR ''+'', NUL]"
    by (simp add: stack_contents_def eval_nat_numeral)
  have n: "stack_contents ?n = Some [CHR ''+'', NUL]"
    by (simp add: stack_contents_def eval_nat_numeral)
  have c: "is_multiplicative CHR ''/''" "is_multiplicative CHR ''*''"
    "\<not> is_multiplicative CHR ''+''"
    by (simp_all add: is_multiplicative_def)
  from multiplicative_operator_flush [OF m c(1)] multiplicative_operator_flush [OF n c(1)] m n c
  show ?thesis by simp
qed

subsection \<open>The handlers on scopes\<close>

lemma flatten_simps [simp]:
  "flatten [] = []" "flatten (s # ss) = s @ NUL # flatten ss"
  by (simp_all add: flatten_def)

lemma scope_ok_cases:
  "scope_ok s \<longleftrightarrow>
     s = [] \<or> (\<exists>x. s = [x] \<and> (is_additive x \<or> is_multiplicative x))
     \<or> (\<exists>x y. s = [x, y] \<and> is_multiplicative x \<and> is_additive y)"
proof (cases s)
  case Nil
  then show ?thesis by (simp add: scope_ok_def)
next
  case (Cons x xs)
  note s = this
  show ?thesis
  proof (cases xs)
    case Nil
    with s show ?thesis by (simp add: scope_ok_def)
  next
    case (Cons y ys)
    with s show ?thesis by (cases ys) (auto simp add: scope_ok_def)
  qed
qed

lemma scope_ok_stack_char: "scope_ok s \<Longrightarrow> list_all stack_char s"
  by (auto simp add: scope_ok_cases stack_char_def)

lemma scope_ok_pending:
  assumes "scope_ok s"
  shows "take 2 (takeWhile (\<lambda>x. x \<noteq> NUL) (s @ NUL # rest)) = s"
  using assms operator_value(2) by (auto simp add: scope_ok_cases)

lemma flatten_stack_char: "list_all scope_ok ss \<Longrightarrow> list_all stack_char (flatten ss)"
  by (induction ss) (auto simp add: scope_ok_stack_char stack_char_def)

lemma scope_ok_simps [simp]:
  "scope_ok []" "is_additive c \<Longrightarrow> scope_ok [c]" "is_multiplicative c \<Longrightarrow> scope_ok [c]"
  by (simp_all add: scope_ok_cases)

lemma action_on_scopes:
  assumes "represents m ss out"
  shows "case scope_handler (classify c) c ss out of
           Inl f \<Rightarrow> action c m = Inl f
         | Inr (go_on, ss', out') \<Rightarrow>
             \<exists>m'. action c m = Inr (if go_on then Recurse m' else Return m')
               \<and> represents m' ss' out'"
proof -
  from assms have m: "stack_contents m = Some (flatten ss)" "list_all scope_ok ss"
    "stdout m = out"
    by (simp_all add: represents_def)
  note chars = flatten_stack_char [OF m(2)]
  show ?thesis
  proof (cases "classify c")
    case Invalid
    then show ?thesis
      using m by (simp add: action_classify handle_error_def printf_def represents_def)
  next
    case Operand
    then show ?thesis
      using m by (simp add: action_classify handle_symbol_def printf_def represents_def)
  next
    case OpenBracket
    then show ?thesis
      using handle_open_bracket_list [OF m(1), of c] m(2,3)
      by (auto simp add: action_classify represents_def)
  next
    case EndOfInput
    show ?thesis
    proof (cases ss)
      case Nil
      with EndOfInput m(1) show ?thesis
        by (simp add: action_classify handlers_below_floor)
    next
      case (Cons s ss')
      with m(2) have s: "scope_ok s" "list_all scope_ok ss'" by simp_all
      from handle_end_list [OF m(1), of c] chars
      show ?thesis
        using EndOfInput m(3) s
        by (auto simp add: Cons action_classify represents_def scope_ok_pending)
    qed
  next
    case AdditiveOp
    show ?thesis
    proof (cases ss)
      case Nil
      with AdditiveOp m(1) show ?thesis
        by (simp add: action_classify handlers_below_floor)
    next
      case (Cons s ss')
      with m(2) have s: "scope_ok s" "list_all scope_ok ss'" by simp_all
      from handle_add_sub_list [OF m(1), of c] chars
      show ?thesis
        using AdditiveOp m(3) s classify_cases(2) [OF AdditiveOp]
        by (auto simp add: Cons action_classify represents_def scope_ok_pending
            split: if_splits)
    qed
  next
    case CloseBracket
    show ?thesis
    proof (cases ss)
      case Nil
      with CloseBracket m(1) show ?thesis
        by (simp add: action_classify handlers_below_floor)
    next
      case (Cons s ss')
      with m(2) have s: "scope_ok s" "list_all scope_ok ss'" by simp_all
      from handle_close_bracket_list [OF m(1), of c] chars
      show ?thesis
        using CloseBracket m(3) s
        by (auto simp add: Cons action_classify represents_def scope_ok_pending)
    qed
  next
    case MultiplicativeOp
    note c = classify_cases(3) [OF this]
    show ?thesis
    proof (cases ss)
      case Nil
      with MultiplicativeOp m(1) show ?thesis
        by (simp add: action_classify handlers_below_floor)
    next
      case (Cons s ss')
      with m(2) have s: "scope_ok s" "list_all scope_ok ss'" by simp_all
      from s(1) consider "s = []"
        | x where "s = [x]" "is_additive x"
        | x where "s = [x]" "is_multiplicative x"
        | x y where "s = [x, y]" "is_multiplicative x" "is_additive y"
        by (auto simp add: scope_ok_cases)
      then show ?thesis
      proof cases
        case 1
        with handle_mul_div_list [of m NUL "flatten ss'" c] m c s(2) MultiplicativeOp
        show ?thesis
          by (auto simp add: Cons action_classify represents_def is_multiplicative_def Let_def)
      next
        case 2
        then have "\<not> is_multiplicative x"
          by (auto simp add: is_additive_def is_multiplicative_def)
        with 2 handle_mul_div_list [of m x "NUL # flatten ss'" c] m c s(2) MultiplicativeOp
        show ?thesis
          by (auto simp add: Cons action_classify represents_def scope_ok_cases Let_def)
      next
        case 3
        with handle_mul_div_list [of m x "NUL # flatten ss'" c] m c s(2) MultiplicativeOp
          stack_contents_top(2) [OF m(1)]
        show ?thesis
          by (auto simp add: Cons action_classify represents_def Let_def)
      next
        case 4
        with handle_mul_div_list [of m x "y # NUL # flatten ss'" c] m c s(2) MultiplicativeOp
          stack_contents_top(2) [OF m(1)]
        show ?thesis
          by (auto simp add: Cons action_classify represents_def scope_ok_cases Let_def)
      qed
    qed
  qed
qed

subsection \<open>Whole runs on scopes\<close>

lemma convert_on_scopes:
  assumes "represents m ss out"
  shows "case scope_run str ss out of
           Inl f \<Rightarrow> convert str m = Inl f
         | Inr (ss', out') \<Rightarrow> \<exists>m'. convert str m = Inr m' \<and> represents m' ss' out'"
  using assms
proof (induction str arbitrary: m ss out)
  case Nil
  from action_on_scopes [OF Nil, of NUL] show ?case
    by (auto simp add: and_then_def split: sum.splits prod.splits if_splits)
next
  case (Cons c str)
  show ?case
  proof (cases "scope_handler (classify c) c ss out")
    case (Inl f)
    with action_on_scopes [OF Cons.prems, of c] show ?thesis
      by (simp add: and_then_def)
  next
    case (Inr r)
    then obtain go_on ss1 out1 where r: "scope_handler (classify c) c ss out = Inr (go_on, ss1, out1)"
      by (cases r) auto
    with action_on_scopes [OF Cons.prems, of c] obtain m1
      where m1: "action c m = Inr (if go_on then Recurse m1 else Return m1)"
        "represents m1 ss1 out1"
      by auto
    show ?thesis
    proof (cases go_on)
      case True
      with Cons.IH [OF m1(2)] m1(1) r show ?thesis
        by (auto simp add: and_then_def split: sum.splits)
    next
      case False
      with m1 r show ?thesis by (simp add: and_then_def)
    qed
  qed
qed

lemma trace_on_scopes:
  assumes "represents m ss out"
  shows "list_all (\<lambda>m'. \<exists>ss' out'. represents m' ss' out') (trace str m)"
  using assms
proof (induction str arbitrary: m ss out)
  case Nil
  have "\<exists>ss' out'. represents m' ss' out'" if "action NUL m = Inr (Return m')" for m'
    using action_on_scopes [OF Nil, of NUL] that
    by (auto split: sum.splits prod.splits if_splits)
  with Nil show ?case
    by (auto split: sum.splits flow.splits)
next
  case (Cons c str)
  have "\<exists>ss' out'. represents m' ss' out'"
    if "action c m = Inr (Return m') \<or> action c m = Inr (Recurse m')" for m'
    using action_on_scopes [OF Cons.prems, of c] that
    by (auto split: sum.splits prod.splits if_splits) blast+
  with Cons show ?case
    by (auto split: sum.splits flow.splits)
qed

lemma trace_not_Nil [simp]: "trace str m \<noteq> []"
  by (cases str) simp_all

lemma trace_last:
  "convert str m = Inr m' \<Longrightarrow> last (trace str m) = m'"
  by (induction str arbitrary: m)
    (auto simp add: and_then_def split: sum.splits flow.splits)

lemma scopes_append_sentinel:
  "NUL \<notin> set s \<Longrightarrow> scopes (s @ NUL # rest) = s # scopes rest"
  by (induction s) auto

lemma scope_ok_no_sentinel: "scope_ok s \<Longrightarrow> NUL \<notin> set s"
  by (auto simp add: scope_ok_cases is_additive_def is_multiplicative_def)

lemma scopes_flatten: "list_all scope_ok ss \<Longrightarrow> scopes (flatten ss) = ss @ [[]]"
  by (induction ss) (simp_all add: scopes_append_sentinel scope_ok_no_sentinel)

lemma represents_orderly: "represents m ss out \<Longrightarrow> orderly m"
  by (simp add: represents_def orderly_def scopes_flatten)

lemma represents_initial: "represents initial [[]] []"
  by (simp add: represents_def initial_def stack_contents_def)

lemma scope_handler_ok:
  assumes "list_all scope_ok ss"
    and "scope_handler (classify c) c ss out = Inr (go_on, ss', out')"
  shows "list_all scope_ok ss'"
proof (cases "classify c")
  case MultiplicativeOp
  note c = classify_cases(3) [OF this]
  show ?thesis
  proof (cases ss)
    case Nil
    with assms MultiplicativeOp show ?thesis by simp
  next
    case (Cons s ss1)
    with assms(1) have "scope_ok s" "list_all scope_ok ss1" by simp_all
    with assms(2) c show ?thesis
      unfolding MultiplicativeOp Cons
      by (auto simp add: scope_ok_cases Let_def is_additive_def is_multiplicative_def
          split: if_splits)
  qed
next
  case AdditiveOp
  with assms classify_cases(2) [OF AdditiveOp] show ?thesis
    by (cases ss) (auto split: if_splits)
qed (use assms in \<open>cases ss; auto split: if_splits\<close>)+

lemma flatten_length: "list_all scope_ok ss \<Longrightarrow> length (flatten ss) \<le> 3 * length ss"
  by (induction ss) (auto simp add: scope_ok_def)

lemma scope_no_operand: "scope_ok s \<Longrightarrow> filter is_operand s = []"
  unfolding scope_ok_cases is_operand_iff class_values by auto

lemma no_operand [simp]: "\<not> is_operand CHR 0x0A" "\<not> is_operand NUL"
  by (simp_all add: is_operand_iff char_value_def)

lemma operator_no_operand: "is_additive x \<or> is_multiplicative x \<Longrightarrow> \<not> is_operand x"
  unfolding is_operand_iff class_values by auto

lemma scope_handler_operands:
  assumes "list_all scope_ok ss" and "expression_char c \<or> c = NUL"
    and "scope_handler (classify c) c ss out = Inr (go_on, ss', out')"
  shows "filter is_operand out' = filter is_operand out @ filter is_operand [c]"
proof -
  have s: "filter is_operand s = []" if "ss = s # ss1" for s ss1
    using assms(1) that by (simp add: scope_no_operand)
  from assms(2) show ?thesis
  proof
    assume "expression_char c"
    then show ?thesis
      using assms(3) s
      by (cases rule: expression_char_cases; cases ss)
        (auto simp add: Let_def operator_no_operand split: if_splits)
  next
    assume "c = NUL"
    then show ?thesis
      using assms(3) s
      by (cases ss) (auto simp add: classify_simps)
  qed
qed

lemma scope_run_operands:
  assumes "list_all expression_char str" and "list_all scope_ok ss"
    and "scope_run str ss out = Inr (ss', out')"
  shows "filter is_operand out' = filter is_operand out @ filter is_operand str"
  using assms
proof (induction str arbitrary: ss out)
  case Nil
  then show ?case
    using scope_handler_operands [of ss NUL out]
    by (auto split: sum.splits prod.splits if_splits)
next
  case (Cons c str)
  from Cons.prems(3) obtain go_on ss1 out1
    where h: "scope_handler (classify c) c ss out = Inr (go_on, ss1, out1)"
    by (auto split: sum.splits)
  from Cons.prems(1) have c: "expression_char c" and str: "list_all expression_char str"
    by simp_all
  from c h have go_on
    by (cases rule: expression_char_cases; cases ss) (auto simp add: Let_def split: if_splits)
  with Cons.prems(3) h have run: "scope_run str ss1 out1 = Inr (ss', out')" by simp
  have "filter is_operand out1 = filter is_operand out @ filter is_operand [c]"
    using scope_handler_operands [OF Cons.prems(2) _ h] c by simp
  with Cons.IH [OF str scope_handler_ok [OF Cons.prems(2) h] run] show ?case by simp
qed

lemma nesting_ge: "d \<le> nesting d str"
  by (induction str arbitrary: d) (auto simp add: max_def)

lemma flatten_tail_length:
  "length (flatten ((if b then tl s else s) # ss)) \<le> length (flatten (s # ss))"
  by simp

lemma scope_handler_step:
  assumes "expression_char c" and "list_all scope_ok ss" and "length ss = Suc d"
    and "d \<le> 20" and "c = CHR '')'' \<longrightarrow> 0 < d"
  shows "\<exists>ss1 out1. scope_handler (classify c) c ss out = Inr (True, ss1, out1)
           \<and> length ss1 = (if c = CHR ''('' then Suc (Suc d)
                             else if c = CHR '')'' then d else Suc d)"
proof -
  from assms(3) obtain s ss0 where ss: "ss = s # ss0" "length ss0 = d"
    by (cases ss) auto
  with assms(2) have ok: "scope_ok s" "list_all scope_ok ss0" by simp_all
  have whole: "length (flatten (s # ss0)) \<le> 63"
    using flatten_length [OF assms(2)] assms(3,4) by (simp add: ss)
  have below: "length (flatten ss0) \<le> 60"
    using flatten_length [OF ok(2)] ss(2) assms(4) by simp
  from assms(1) show ?thesis
  proof (cases rule: expression_char_cases)
    case 1
    then show ?thesis
      using assms(3) by (auto simp add: is_operand_iff class_values)
  next
    case 2
    with below show ?thesis
      using ss by (auto simp add: class_values)
  next
    case 3
    have "length (flatten ((if s \<noteq> [] \<and> is_multiplicative (hd s) then tl s else s) # ss0)) < 64"
      using flatten_tail_length [of "s \<noteq> [] \<and> is_multiplicative (hd s)" s ss0] whole
      by linarith
    with 3 show ?thesis
      using ss by (auto simp add: class_values Let_def)
  next
    case 4
    with whole show ?thesis
      using ss by simp
  next
    case 5
    with assms(5) show ?thesis
      using ss by simp
  qed
qed

lemma scope_run_completes:
  assumes "list_all expression_char str" and "list_all scope_ok ss" and "length ss = Suc d"
    and "bracket_depth d str = Some d'" and "nesting d str \<le> 20"
  shows "\<exists>ss' out'. scope_run str ss out = Inr (ss', out') \<and> length ss' = Suc d'"
  using assms
proof (induction str arbitrary: ss out d)
  case Nil
  then show ?case
    by (cases ss) (simp_all add: classify_simps)
next
  case (Cons c str)
  from Cons.prems(1) have c: "expression_char c" and str: "list_all expression_char str"
    by simp_all
  define d1 where "d1 = (if c = CHR ''('' then Suc d else if c = CHR '')'' then d - 1 else d)"
  have d: "d \<le> 20"
    using nesting_ge [of d "c # str"] Cons.prems(5) by simp
  have close: "c = CHR '')'' \<longrightarrow> 0 < d"
    using Cons.prems(4) by (cases d) auto
  from scope_handler_step [OF c Cons.prems(2,3) d close, of out] obtain ss1 out1
    where h: "scope_handler (classify c) c ss out = Inr (True, ss1, out1)"
      and len: "length ss1 = Suc d1"
    using close by (auto simp add: d1_def split: if_splits)
  have depth: "bracket_depth d1 str = Some d'"
    using Cons.prems(4) by (cases d) (auto simp add: d1_def split: if_splits)
  have nest: "nesting d1 str \<le> 20"
    using Cons.prems(5) by (auto simp add: d1_def split: if_splits)
  from Cons.IH [OF str scope_handler_ok [OF Cons.prems(2) h] len depth nest, of out1] h
  show ?case by simp
qed

lemma scope_postfix_char: "scope_ok s \<Longrightarrow> list_all postfix_char s"
  by (auto simp add: scope_ok_cases postfix_char_def)

lemma scope_handler_output:
  assumes "expression_char c" and "list_all scope_ok ss"
    and "scope_handler (classify c) c ss out = Inr (go_on, ss', out')"
  shows "\<exists>e. out' = out @ e \<and> list_all postfix_char e"
proof -
  have s: "list_all postfix_char s" if "ss = s # ss1" for s ss1
    using assms(2) that by (simp add: scope_postfix_char)
  have hd: "postfix_char (hd s)" if "ss = s # ss1" "s \<noteq> []" for s ss1
    using s [OF that(1)] that(2) by (cases s) simp_all
  from assms(1) show ?thesis
    using assms(3) s hd
    by (cases rule: expression_char_cases; cases ss)
      (auto simp add: Let_def postfix_char_def split: if_splits)
qed

lemma scope_run_output:
  assumes "list_all expression_char str" and "list_all scope_ok ss"
    and "scope_run str ss out = Inr (ss', out')"
  shows "\<exists>p. out' = out @ p @ [CHR 0x0A] \<and> list_all postfix_char p"
  using assms
proof (induction str arbitrary: ss out)
  case Nil
  then show ?case
    by (cases ss) (auto simp add: classify_simps scope_postfix_char)
next
  case (Cons c str)
  from Cons.prems(3) obtain go_on ss1 out1
    where h: "scope_handler (classify c) c ss out = Inr (go_on, ss1, out1)"
    by (auto split: sum.splits)
  from Cons.prems(1) have c: "expression_char c" and str: "list_all expression_char str"
    by simp_all
  from c h have go_on
    by (cases rule: expression_char_cases; cases ss) (auto simp add: Let_def split: if_splits)
  with Cons.prems(3) h have run: "scope_run str ss1 out1 = Inr (ss', out')" by simp
  from scope_handler_output [OF c Cons.prems(2) h] obtain e
    where e: "out1 = out @ e" "list_all postfix_char e" by blast
  from Cons.IH [OF str scope_handler_ok [OF Cons.prems(2) h] run] obtain p
    where p: "out' = out1 @ p @ [CHR 0x0A]" "list_all postfix_char p" by blast
  from e p have "out' = out @ (e @ p) @ [CHR 0x0A]" "list_all postfix_char (e @ p)"
    by simp_all
  then show ?case by blast
qed

lemma printed_on_scopes:
  "case scope_run str [[]] [] of
     Inl f \<Rightarrow> convert str initial = Inl f
   | Inr (ss', out') \<Rightarrow> \<exists>m'. convert str initial = Inr m' \<and> represents m' ss' out'"
  by (rule convert_on_scopes [OF represents_initial])

lemma count_sentinels: "list_all scope_ok ss \<Longrightarrow> count_list (flatten ss) NUL = length ss"
  by (induction ss) (simp_all add: scope_ok_no_sentinel)

lemma other_chars: "\<not> expression_char c \<Longrightarrow> classify c = Invalid \<or> classify c = EndOfInput"
  by (simp add: classify_def expression_char_def)

lemma scope_handler_any_step:
  assumes "list_all scope_ok ss" and "length ss = Suc d"
    and "d \<le> 20" and "c = CHR '')'' \<longrightarrow> 0 < d"
  shows "\<exists>go_on ss1 out1. scope_handler (classify c) c ss out = Inr (go_on, ss1, out1)
           \<and> (go_on \<longrightarrow> length ss1 = (if c = CHR ''('' then Suc (Suc d)
                                       else if c = CHR '')'' then d else Suc d))"
proof (cases "expression_char c")
  case True
  from scope_handler_step [OF True assms, of out] show ?thesis by blast
next
  case False
  from assms(2) obtain s ss0 where "ss = s # ss0" by (cases ss) auto
  with other_chars [OF False] show ?thesis by auto
qed

lemma scope_run_returns:
  assumes "list_all scope_ok ss" and "length ss = Suc d"
    and "bracket_depth d str = Some d'" and "nesting d str \<le> 20"
  shows "\<exists>ss' out'. scope_run str ss out = Inr (ss', out')"
  using assms
proof (induction str arbitrary: ss out d)
  case Nil
  then show ?case
    by (cases ss) (simp_all add: classify_simps)
next
  case (Cons c str)
  define d1 where "d1 = (if c = CHR ''('' then Suc d else if c = CHR '')'' then d - 1 else d)"
  have d: "d \<le> 20"
    using nesting_ge [of d "c # str"] Cons.prems(4) by simp
  have close: "c = CHR '')'' \<longrightarrow> 0 < d"
    using Cons.prems(3) by (cases d) auto
  from scope_handler_any_step [OF Cons.prems(1,2) d close, of out] obtain go_on ss1 out1
    where h: "scope_handler (classify c) c ss out = Inr (go_on, ss1, out1)"
      and len: "go_on \<longrightarrow> length ss1 = Suc d1"
    using close by (auto simp add: d1_def split: if_splits)
  show ?case
  proof (cases go_on)
    case False
    with h show ?thesis by simp
  next
    case True
    have depth: "bracket_depth d1 str = Some d'"
      using Cons.prems(3) by (cases d) (auto simp add: d1_def split: if_splits)
    have nest: "nesting d1 str \<le> 20"
      using Cons.prems(4) by (auto simp add: d1_def split: if_splits)
    from Cons.IH [OF scope_handler_ok [OF Cons.prems(1) h] _ depth nest, of out1] len True h
    show ?thesis by simp
  qed
qed

lemma flatten_append: "flatten (ss @ below) = flatten ss @ flatten below"
  by (simp add: flatten_def)

lemma scope_handler_frame:
  assumes "ss \<noteq> []"
    and "scope_handler k c (ss @ below) (pre @ out) = Inr (go_on, ss2, out2)"
  shows "\<exists>ss1 out1. scope_handler k c ss out = Inr (go_on, ss1, out1)
           \<and> ss2 = ss1 @ below \<and> out2 = pre @ out1"
proof -
  from assms(1) obtain s ss0 where ss: "ss = s # ss0" by (cases ss) auto
  from assms(2) show ?thesis
    unfolding ss by (cases k) (auto simp add: Let_def flatten_append split: if_splits)
qed

lemma scope_handler_length:
  assumes "ss \<noteq> []" and "scope_handler (classify c) c ss out = Inr (True, ss1, out1)"
  shows "length ss1 = (if c = CHR ''('' then Suc (length ss)
                       else if c = CHR '')'' then length ss - 1 else length ss)"
proof -
  from assms(1) obtain s ss0 where ss: "ss = s # ss0" by (cases ss) auto
  have k: "(classify c = OpenBracket) = (c = CHR ''('')"
    "(classify c = CloseBracket) = (c = CHR '')'')"
    unfolding classify_value class_values by auto
  from assms(2) k show ?thesis
    unfolding ss by (cases "classify c") (auto simp add: Let_def split: if_splits)
qed

lemma scope_run_frame:
  assumes "length ss = Suc d" and "bracket_depth d rest = Some d'"
    and "scope_run rest (ss @ below) (pre @ out) = Inr (ss2, out2)"
  shows "\<exists>ss' out'. scope_run rest ss out = Inr (ss', out')
           \<and> ss2 = ss' @ below \<and> out2 = pre @ out'"
  using assms
proof (induction rest arbitrary: ss out d)
  case Nil
  then obtain s ss0 where "ss = s # ss0" by (cases ss) auto
  with Nil.prems(3) show ?case by (auto simp add: classify_simps)
next
  case (Cons c rest)
  from Cons.prems(1) have ne: "ss \<noteq> []" by auto
  from Cons.prems(3) obtain go_on ss3 out3
    where big: "scope_handler (classify c) c (ss @ below) (pre @ out) = Inr (go_on, ss3, out3)"
    by (auto split: sum.splits)
  from scope_handler_frame [OF ne big] obtain ss1 out1
    where small: "scope_handler (classify c) c ss out = Inr (go_on, ss1, out1)"
      and eq: "ss3 = ss1 @ below" "out3 = pre @ out1"
    by blast
  show ?case
  proof (cases go_on)
    case False
    with Cons.prems(3) big small eq show ?thesis by simp
  next
    case True
    define d1 where "d1 = (if c = CHR ''('' then Suc d else if c = CHR '')'' then d - 1 else d)"
    have depth: "bracket_depth d1 rest = Some d'"
      using Cons.prems(2) by (cases d) (auto simp add: d1_def split: if_splits)
    have "c = CHR '')'' \<longrightarrow> 0 < d"
      using Cons.prems(2) by (cases d) auto
    moreover from small True
    have "scope_handler (classify c) c ss out = Inr (True, ss1, out1)" by simp
    note scope_handler_length [OF ne this]
    ultimately have len: "length ss1 = Suc d1"
      using Cons.prems(1) by (auto simp add: d1_def)
    from Cons.prems(3) big True eq
    have "scope_run rest (ss1 @ below) (pre @ out1) = Inr (ss2, out2)" by simp
    from Cons.IH [OF len depth this] small True show ?thesis by simp
  qed
qed

lemma bracket_depth_shift:
  "bracket_depth d str = Some e \<Longrightarrow> bracket_depth (d + a) str = Some (e + a)"
proof (induction str arbitrary: d)
  case Nil
  then show ?case by simp
next
  case (Cons c str)
  from Cons.prems Cons.IH [of "Suc d"] Cons.IH [of d] Cons.IH [of "d - 1"] show ?case
    by (cases d) (auto split: if_splits)
qed

lemma nesting_shift:
  "bracket_depth d str = Some e \<Longrightarrow> nesting (d + a) str = nesting d str + a"
proof (induction str arbitrary: d)
  case Nil
  then show ?case by simp
next
  case (Cons c str)
  from Cons.prems Cons.IH [of "Suc d"] Cons.IH [of d] Cons.IH [of "d - 1"] show ?case
    by (cases d) (auto split: if_splits)
qed

lemma bracket_depth_append:
  "bracket_depth d pre = Some d1 \<Longrightarrow> bracket_depth d (pre @ rest) = bracket_depth d1 rest"
proof (induction pre arbitrary: d)
  case Nil
  then show ?case by simp
next
  case (Cons c pre)
  then show ?case by (cases d) (auto split: if_splits)
qed

lemma nesting_append:
  "bracket_depth d pre = Some d1 \<Longrightarrow>
     nesting d (pre @ rest) = max (nesting d pre) (nesting d1 rest)"
proof (induction pre arbitrary: d)
  case Nil
  then show ?case using nesting_ge [of d1 rest] by simp
next
  case (Cons c pre)
  then show ?case by (cases d) (auto split: if_splits)
qed

lemma trace_prefix:
  assumes "list_all expression_char pre" and "represents m ss out" and "length ss = Suc d"
    and "bracket_depth d pre = Some d1" and "nesting d pre \<le> 20"
  shows "\<exists>ss1 out1. length pre < length (trace (pre @ rest) m)
           \<and> represents (trace (pre @ rest) m ! length pre) ss1 out1
           \<and> length ss1 = Suc d1
           \<and> convert (pre @ rest) m = convert rest (trace (pre @ rest) m ! length pre)"
  using assms
proof (induction pre arbitrary: m ss out d)
  case Nil
  have "0 < length (trace rest m)" "trace rest m ! 0 = m"
    by (cases rest; simp)+
  with Nil show ?case by auto
next
  case (Cons c pre)
  from Cons.prems(1) have c: "expression_char c" and pre: "list_all expression_char pre"
    by simp_all
  from Cons.prems(2) have ok: "list_all scope_ok ss" by (simp add: represents_def)
  define d2 where "d2 = (if c = CHR ''('' then Suc d else if c = CHR '')'' then d - 1 else d)"
  have d: "d \<le> 20"
    using nesting_ge [of d "c # pre"] Cons.prems(5) by simp
  have close: "c = CHR '')'' \<longrightarrow> 0 < d"
    using Cons.prems(4) by (cases d) auto
  from scope_handler_step [OF c ok Cons.prems(3) d close, of out] obtain ss2 out2
    where h: "scope_handler (classify c) c ss out = Inr (True, ss2, out2)"
      and len: "length ss2 = Suc d2"
    using close by (auto simp add: d2_def split: if_splits)
  with action_on_scopes [OF Cons.prems(2), of c] obtain m2
    where m2: "action c m = Inr (Recurse m2)" "represents m2 ss2 out2"
    by auto
  have depth: "bracket_depth d2 pre = Some d1"
    using Cons.prems(4) by (cases d) (auto simp add: d2_def split: if_splits)
  have nest: "nesting d2 pre \<le> 20"
    using Cons.prems(5) by (auto simp add: d2_def split: if_splits)
  from Cons.IH [OF pre m2(2) len depth nest] m2(1) show ?case
    by (simp add: and_then_def)
qed

lemma run_after_open_bracket:
  assumes "list_all expression_char pre"
    and "bracket_depth 0 pre = Some j" and "bracket_depth 0 rest = Some k"
    and "nesting 0 (pre @ CHR ''('' # rest) \<le> 20"
  defines "str \<equiv> pre @ CHR ''('' # rest"
  shows "length pre < length (trace str initial)
       \<and> (\<exists>m m_rest stk_open stk_rest.
             convert str initial = Inr m \<and> convert rest initial = Inr m_rest
             \<and> stack_contents (trace str initial ! length pre) = Some stk_open
             \<and> stack_contents m_rest = Some stk_rest
             \<and> stack_contents m = Some (stk_rest @ stk_open)
             \<and> stdout m = stdout (trace str initial ! length pre) @ stdout m_rest)"
proof -
  let ?open = "trace str initial ! length pre"
  have nest: "nesting 0 pre \<le> 20" "nesting j (CHR ''('' # rest) \<le> 20"
    using assms(4) by (simp_all add: nesting_append [OF assms(2)])
  have ok: "list_all scope_ok [[]]" by simp
  from trace_prefix [OF assms(1) represents_initial _ assms(2) nest(1), of "CHR ''('' # rest"]
  obtain ss1 out1 where before: "length pre < length (trace str initial)"
      "represents ?open ss1 out1" "length ss1 = Suc j"
      "convert str initial = convert (CHR ''('' # rest) ?open"
    by (auto simp add: str_def)
  from before(2) have ok1: "list_all scope_ok ss1" by (simp add: represents_def)
  have "bracket_depth (Suc j) rest = Some (k + Suc j)"
    using bracket_depth_shift [OF assms(3), of "Suc j"] by simp
  then have depth: "bracket_depth j (CHR ''('' # rest) = Some (k + Suc j)" by simp
  from scope_run_returns [OF ok1 before(3) depth nest(2), of out1] obtain ss2 out2
    where whole: "scope_run (CHR ''('' # rest) ss1 out1 = Inr (ss2, out2)" by blast
  then have big: "scope_run rest ([[]] @ ss1) (out1 @ []) = Inr (ss2, out2)"
    by (auto simp add: classify_simps split: if_splits)
  from scope_run_frame [OF _ assms(3) big] obtain ss' out'
    where small: "scope_run rest [[]] [] = Inr (ss', out')"
      and eq: "ss2 = ss' @ ss1" "out2 = out1 @ out'"
    by auto
  from convert_on_scopes [OF before(2), of "CHR ''('' # rest"] obtain m
    where m: "convert (CHR ''('' # rest) ?open = Inr m" "represents m ss2 out2"
    by (auto simp only: whole sum.case prod.case)
  from printed_on_scopes [of rest] small obtain m_rest
    where r: "convert rest initial = Inr m_rest" "represents m_rest ss' out'"
    by auto
  have "stack_contents ?open = Some (flatten ss1)" "stack_contents m_rest = Some (flatten ss')"
    "stack_contents m = Some (flatten ss' @ flatten ss1)"
    "stdout m = stdout ?open @ stdout m_rest"
    using before(2) r(2) m(2) eq by (simp_all add: represents_def flatten_append)
  with before(1,4) m(1) r(1) show ?thesis by auto
qed

lemma unbalanced_run_returns:
  assumes "list_all expression_char str" and "bracket_depth 0 str = Some d"
    and "nesting 0 str \<le> 20"
  shows "\<exists>m p stk. convert str initial = Inr m
           \<and> stdout m = p @ [CHR 0x0A] \<and> list_all postfix_char p
           \<and> stack_contents m = Some stk \<and> count_list stk NUL = Suc d"
proof -
  have ok: "list_all scope_ok [[]]" by simp
  from scope_run_completes [OF assms(1) ok _ assms(2,3), of "[]"] obtain ss' out'
    where run: "scope_run str [[]] [] = Inr (ss', out')" and len: "length ss' = Suc d"
    by auto
  with printed_on_scopes [of str] obtain m
    where m: "convert str initial = Inr m" "represents m ss' out'"
    by auto
  from scope_run_output [OF assms(1) ok run] obtain p
    where p: "out' = p @ [CHR 0x0A]" "list_all postfix_char p" by auto
  from m(2) have "stack_contents m = Some (flatten ss')" "stdout m = out'"
    "count_list (flatten ss') NUL = length ss'"
    by (simp_all add: represents_def count_sentinels)
  with m(1) p len show ?thesis by auto
qed

text \<open>
  The first fault of a conversion started by \<open>main\<close> can only be one of two: the load just
  below the block, after an unmatched close bracket, or the store just above it, when the
  stack is full. Up to there no byte is read before it is written and no call leaves a table.
\<close>

lemma scope_handler_faults:
  "scope_handler k c ss out = Inl f \<Longrightarrow> f = Load_outside (- 1) \<or> f = Store_outside 64"
  by (cases k; cases ss) (auto simp add: Let_def split: if_splits)

lemma scope_run_faults:
  assumes "scope_run str ss out = Inl f"
  shows "f = Load_outside (- 1) \<or> f = Store_outside 64"
  using assms
proof (induction str arbitrary: ss out)
  case Nil
  then show ?case
    using scope_handler_faults [of "classify NUL" NUL ss out]
    by (cases ss) (auto simp add: classify_simps split: sum.splits)
next
  case (Cons c str)
  then show ?case
    using scope_handler_faults [of "classify c" c ss out]
    by (auto split: sum.splits if_splits)
qed

lemma faults_of_conversion:
  assumes "convert str initial = Inl f"
  shows "f = Load_outside (- 1) \<or> f = Store_outside 64"
proof (cases "scope_run str [[]] []")
  case (Inl g)
  with printed_on_scopes [of str] assms have "g = f" by simp
  with Inl scope_run_faults show ?thesis by blast
next
  case (Inr r)
  with printed_on_scopes [of str] assms show ?thesis by (auto split: prod.splits)
qed

subsection \<open>Runs on given inputs, and all runs\<close>

lemmas run_defs =
  printed_def initial_def action_def call_index_def call_table_def table_entry_def
  handle_error_def handle_end_def handle_symbol_def handle_add_sub_def handle_mul_div_def
  handle_open_bracket_def handle_close_bracket_def pop_def pop0_def pop_mul_div_def push_def
  print_symbol_def print_call_table_def printf_def print_char_def print_nothing_def
  load_def store_def check_interval_def and_then_def promote_def to_char_def char_of_def

text \<open>
  Claim C1. On each of the inputs listed in the specification the conversion returns, and what
  it has printed is the listed postfix sequence, followed by the newline that \<open>handle_end\<close>
  prints at the end of every conversion.
\<close>

theorem concrete_scenarios:
  "printed ''a'' = Inr (''a'' @ [CHR 0x0A])
   \<and> printed ''a+b'' = Inr (''ab+'' @ [CHR 0x0A])
   \<and> printed ''a+b*c'' = Inr (''abc*+'' @ [CHR 0x0A])
   \<and> printed ''a+b+c'' = Inr (''ab+c+'' @ [CHR 0x0A])
   \<and> printed ''a/b/c'' = Inr (''ab/c/'' @ [CHR 0x0A])
   \<and> printed ''(a+b)*c'' = Inr (''ab+c*'' @ [CHR 0x0A])
   \<and> printed ''a+(b+c*d)*e+f/g+h'' = Inr (''abcd*+e*+fg/+h+'' @ [CHR 0x0A])"
proof -
  have "printed ''a'' = Inr (''a'' @ [CHR 0x0A])"
    by (simp add: run_defs)
  moreover have "printed ''a+b'' = Inr (''ab+'' @ [CHR 0x0A])"
    by (simp add: run_defs)
  moreover have "printed ''a+b*c'' = Inr (''abc*+'' @ [CHR 0x0A])"
    by (simp add: run_defs)
  moreover have "printed ''a+b+c'' = Inr (''ab+c+'' @ [CHR 0x0A])"
    by (simp add: run_defs)
  moreover have "printed ''a/b/c'' = Inr (''ab/c/'' @ [CHR 0x0A])"
    by (simp add: run_defs)
  moreover have "printed ''(a+b)*c'' = Inr (''ab+c*'' @ [CHR 0x0A])"
    by (simp add: run_defs)
  moreover have "printed ''a+(b+c*d)*e+f/g+h'' = Inr (''abcd*+e*+fg/+h+'' @ [CHR 0x0A])"
    by (simp add: run_defs)
  ultimately show ?thesis by blast
qed

text \<open>
  Claim C8. A character of no category (\<open>Invalid\<close>) ends the conversion at once: whatever the
  state and whatever follows the character, \<open>convert\<close> returns after printing a newline, the
  words \<open>Error in the expression\<close> and a newline, a message that does not say what was wrong;
  the stack is left as it was, the pending operators are not printed and the rest of the
  input is not read. On \<open>a$b\<close> the output is \<open>a\<close> followed by that message.
\<close>

theorem invalid_character_aborts:
  "(\<forall>c str m. classify c = Invalid \<longrightarrow>
      convert (c # str) m
        = Inr (m\<lparr>stdout := stdout m @ [CHR 0x0A] @ ''Error in the expression'' @ [CHR 0x0A]\<rparr>))
   \<and> printed ''a$b'' = Inr (''a'' @ [CHR 0x0A] @ ''Error in the expression'' @ [CHR 0x0A])"
proof -
  have "convert (c # str) m
      = Inr (m\<lparr>stdout := stdout m @ [CHR 0x0A] @ ''Error in the expression'' @ [CHR 0x0A]\<rparr>)"
    if "classify c = Invalid" for c str m
    using that
    by (simp add: action_classify and_then_def handle_error_def printf_def error_text_def)
  moreover have "printed ''a$b''
      = Inr (''a'' @ [CHR 0x0A] @ ''Error in the expression'' @ [CHR 0x0A])"
    by (simp add: run_defs error_text_def)
  ultimately show ?thesis by blast
qed

theorem invalid_character_aborts_witness:
  "classify CHR ''$'' = Invalid
   \<and> convert ''$b'' (initial\<lparr>stdout := ''a''\<rparr>)
       = Inr (initial\<lparr>stdout := ''a'' @ [CHR 0x0A] @ ''Error in the expression'' @ [CHR 0x0A]\<rparr>)"
proof -
  have "classify CHR ''$'' = Invalid"
    by (simp add: classify_def is_operand_def is_additive_def is_multiplicative_def)
  then show ?thesis
    using invalid_character_aborts by simp
qed

text \<open>
  Claim C5. At every step of the conversion of any input, well-formed or not, the stack is a
  list of written bytes inside the block, and each of its scopes holds operators only, at
  most two, and if two then a multiplicative one on top of an additive one. The steps are
  the states of \<open>trace\<close>: the state at each call of \<open>convert\<close> and the state in which the last
  handler returns, which is the state \<open>convert\<close> returns.
\<close>

theorem scope_invariant:
  "list_all orderly (trace str initial)
   \<and> (case convert str initial of Inl f \<Rightarrow> True | Inr m \<Rightarrow> last (trace str initial) = m)"
proof
  have "list_all (\<lambda>m'. \<exists>ss' out'. represents m' ss' out') (trace str initial)"
    by (rule trace_on_scopes [OF represents_initial])
  then show "list_all orderly (trace str initial)"
    by (auto simp add: list_all_iff represents_orderly)
  show "case convert str initial of Inl f \<Rightarrow> True | Inr m \<Rightarrow> last (trace str initial) = m"
    by (simp add: trace_last split: sum.splits)
qed

theorem scope_invariant_witness:
  "well_formed ''a+b*(c-d)''
   \<and> list_all orderly (trace ''a+b*(c-d)'' initial)
   \<and> map stack_contents (trace ''a+b*(c-d)'' initial) =
       [Some [NUL], Some [NUL], Some [CHR ''+'', NUL], Some [CHR ''+'', NUL],
        Some [CHR ''*'', CHR ''+'', NUL], Some [NUL, CHR ''*'', CHR ''+'', NUL],
        Some [NUL, CHR ''*'', CHR ''+'', NUL], Some [CHR ''-'', NUL, CHR ''*'', CHR ''+'', NUL],
        Some [CHR ''-'', NUL, CHR ''*'', CHR ''+'', NUL], Some [CHR ''*'', CHR ''+'', NUL],
        Some [NUL]]"
proof -
  have "well_formed ''a+b*(c-d)''"
    by (simp add: well_formed_def expression_char_def is_operand_def is_additive_def
        is_multiplicative_def)
  moreover have "map stack_contents (trace ''a+b*(c-d)'' initial) =
       [Some [NUL], Some [NUL], Some [CHR ''+'', NUL], Some [CHR ''+'', NUL],
        Some [CHR ''*'', CHR ''+'', NUL], Some [NUL, CHR ''*'', CHR ''+'', NUL],
        Some [NUL, CHR ''*'', CHR ''+'', NUL], Some [CHR ''-'', NUL, CHR ''*'', CHR ''+'', NUL],
        Some [CHR ''-'', NUL, CHR ''*'', CHR ''+'', NUL], Some [CHR ''*'', CHR ''+'', NUL],
        Some [NUL]]"
    by (simp add: run_defs stack_contents_def eval_nat_numeral)
  ultimately show ?thesis
    using scope_invariant [of "''a+b*(c-d)''"] by simp
qed

text \<open>
  Claim C2 as stated fails: it speaks of every expression with balanced brackets, and the
  stack has 64 bytes and no check. On an operand inside 64 pairs of brackets the sentinel of
  the last open bracket is stored one past the block, before the operand is printed.
\<close>

theorem operand_order_counterexample:
  "well_formed (replicate 64 CHR ''('' @ ''a'' @ replicate 64 CHR '')'')
   \<and> printed (replicate 64 CHR ''('' @ ''a'' @ replicate 64 CHR '')'') = Inl (Store_outside 64)"
proof
  show "well_formed (replicate 64 CHR ''('' @ ''a'' @ replicate 64 CHR '')'')"
    by (simp add: well_formed_def expression_char_def is_operand_def eval_nat_numeral)
  show "printed (replicate 64 CHR ''('' @ ''a'' @ replicate 64 CHR '')'') = Inl (Store_outside 64)"
    by (simp add: run_defs eval_nat_numeral)
qed

text \<open>
  Claim C2, amended. For a well-formed expression (operands, the four operators and balanced
  brackets), whenever the conversion returns, the operands in its output are the operands of
  the input, in the same order; and it does return whenever at most 20 brackets are open at
  once, which keeps the stack inside the 64 bytes.
\<close>

theorem operand_order_preserved:
  assumes "well_formed str"
  shows "(\<forall>out. printed str = Inr out \<longrightarrow> filter is_operand out = filter is_operand str)
       \<and> (nesting 0 str \<le> 20 \<longrightarrow>
            (\<exists>out. printed str = Inr out \<and> filter is_operand out = filter is_operand str))"
proof -
  from assms have chars: "list_all expression_char str" and depth: "bracket_depth 0 str = Some 0"
    by (simp_all add: well_formed_def)
  have ok: "list_all scope_ok [[]]" by simp
  have part: "filter is_operand out = filter is_operand str" if "printed str = Inr out" for out
  proof -
    from that obtain m where m: "convert str initial = Inr m" "stdout m = out"
      by (auto simp add: printed_def and_then_def split: sum.splits)
    with printed_on_scopes [of str] obtain ss' where "scope_run str [[]] [] = Inr (ss', out)"
      by (auto simp add: represents_def split: sum.splits)
    from scope_run_operands [OF chars ok this] show ?thesis by simp
  qed
  have "\<exists>out. printed str = Inr out" if "nesting 0 str \<le> 20"
  proof -
    from scope_run_completes [OF chars ok _ depth that, of "[]"] obtain ss' out'
      where "scope_run str [[]] [] = Inr (ss', out')" by auto
    with printed_on_scopes [of str] show ?thesis
      by (auto simp add: printed_def and_then_def)
  qed
  with part show ?thesis by blast
qed

theorem operand_order_preserved_witness:
  "well_formed ''a+(b+c*d)*e+f/g+h'' \<and> nesting 0 ''a+(b+c*d)*e+f/g+h'' \<le> 20
   \<and> (\<exists>out. printed ''a+(b+c*d)*e+f/g+h'' = Inr out \<and> filter is_operand out = ''abcdefgh'')"
proof -
  have "well_formed ''a+(b+c*d)*e+f/g+h''"
    by (simp add: well_formed_def expression_char_def is_operand_def is_additive_def
        is_multiplicative_def)
  moreover have "nesting 0 ''a+(b+c*d)*e+f/g+h'' \<le> 20"
    by simp
  moreover have "filter is_operand ''a+(b+c*d)*e+f/g+h'' = ''abcdefgh''"
    by (simp add: is_operand_def)
  ultimately show ?thesis
    using operand_order_preserved [of "''a+(b+c*d)*e+f/g+h''"] by simp
qed

text \<open>
  Claim C6 as stated fails. The source has no check of the brackets. With an unmatched open
  bracket the conversion returns as on any other input: on \<open>(a+b\<close> it prints \<open>ab+\<close> and the
  newline, and no message; on \<open>a+(b*c\<close> it prints \<open>abc*\<close> and leaves the \<open>+\<close> on the stack.
  With an unmatched close bracket \<open>pop0\<close> takes the sentinel at \<open>stack_bottom\<close> off, and the
  next handler reads the byte before the block: on \<open>a+b)\<close> the last access is the load at
  offset \<open>-1\<close>.
\<close>

theorem unbalanced_brackets_unreported:
  "printed ''(a+b'' = Inr (''ab+'' @ [CHR 0x0A])
   \<and> printed ''a+(b*c'' = Inr (''abc*'' @ [CHR 0x0A])
   \<and> printed ''a+b)'' = Inl (Load_outside (- 1))"
  by (simp add: run_defs)

text \<open>
  Claim C6, amended. An open bracket that is never closed is not reported. Take an
  expression of operands, operators and brackets, nested at most 20 deep, that is cut by one
  of its open brackets into a part before it and a rest, neither with a close bracket that
  lacks its open bracket. The conversion returns, and from that bracket on it goes as the
  conversion of the rest alone does: what it prints after the bracket is what the conversion
  of the rest alone prints, ending with the newline and with no message anywhere, and its
  final stack is the final stack of the rest alone on top of the stack as it was when the
  bracket was read. So the operators pending when the bracket was read are still on the
  stack at the end and were never printed.
\<close>

theorem unmatched_open_bracket_unreported:
  assumes "list_all expression_char pre" and "list_all expression_char rest"
    and "bracket_depth 0 pre = Some j" and "bracket_depth 0 rest = Some k"
    and "nesting 0 (pre @ CHR ''('' # rest) \<le> 20"
  shows "length pre < length (trace (pre @ CHR ''('' # rest) initial)
       \<and> (\<exists>m m_rest stk_open stk_rest p.
             convert (pre @ CHR ''('' # rest) initial = Inr m
             \<and> convert rest initial = Inr m_rest
             \<and> stack_contents (trace (pre @ CHR ''('' # rest) initial ! length pre)
                 = Some stk_open
             \<and> stack_contents m_rest = Some stk_rest
             \<and> stack_contents m = Some (stk_rest @ stk_open)
             \<and> stdout m
                 = stdout (trace (pre @ CHR ''('' # rest) initial ! length pre) @ stdout m_rest
             \<and> stdout m = p @ [CHR 0x0A] \<and> list_all postfix_char p
             \<and> count_list (stk_rest @ stk_open) NUL = Suc (Suc (j + k)))"
proof -
  let ?str = "pre @ CHR ''('' # rest"
  have chars: "list_all expression_char ?str"
    using assms(1,2) by (simp add: expression_char_def)
  have "bracket_depth (Suc j) rest = Some (k + Suc j)"
    using bracket_depth_shift [OF assms(4), of "Suc j"] by simp
  then have depth: "bracket_depth 0 ?str = Some (Suc (j + k))"
    by (simp add: bracket_depth_append [OF assms(3)])
  from unbalanced_run_returns [OF chars depth assms(5)] obtain m p stk
    where whole: "convert ?str initial = Inr m" "stdout m = p @ [CHR 0x0A]"
      "list_all postfix_char p" "stack_contents m = Some stk"
      "count_list stk NUL = Suc (Suc (j + k))"
    by blast
  from run_after_open_bracket [OF assms(1,3,4,5)] whole(1) obtain m_rest stk_open stk_rest
    where "length pre < length (trace ?str initial)"
      "convert rest initial = Inr m_rest"
      "stack_contents (trace ?str initial ! length pre) = Some stk_open"
      "stack_contents m_rest = Some stk_rest"
      "stack_contents m = Some (stk_rest @ stk_open)"
      "stdout m = stdout (trace ?str initial ! length pre) @ stdout m_rest"
    by auto
  with whole show ?thesis by auto
qed

theorem unmatched_open_bracket_unreported_witness:
  "list_all expression_char ''a+'' \<and> list_all expression_char ''b*c''
   \<and> bracket_depth 0 ''a+'' = Some 0 \<and> bracket_depth 0 ''b*c'' = Some 0
   \<and> nesting 0 (''a+'' @ CHR ''('' # ''b*c'') \<le> 20
   \<and> stack_contents (trace (''a+'' @ CHR ''('' # ''b*c'') initial ! length ''a+'')
       = Some [CHR ''+'', NUL]
   \<and> stdout (trace (''a+'' @ CHR ''('' # ''b*c'') initial ! length ''a+'') = ''a''
   \<and> (\<exists>m m_rest. convert (''a+'' @ CHR ''('' # ''b*c'') initial = Inr m
          \<and> convert ''b*c'' initial = Inr m_rest
          \<and> stack_contents m_rest = Some [NUL] \<and> stdout m_rest = ''bc*'' @ [CHR 0x0A]
          \<and> stack_contents m = Some [NUL, CHR ''+'', NUL]
          \<and> stdout m = ''abc*'' @ [CHR 0x0A])"
proof -
  have h: "list_all expression_char ''a+''" "list_all expression_char ''b*c''"
    "bracket_depth 0 ''a+'' = Some 0" "bracket_depth 0 ''b*c'' = Some 0"
    "nesting 0 (''a+'' @ CHR ''('' # ''b*c'') \<le> 20"
    by (simp_all add: expression_char_def is_operand_def is_additive_def is_multiplicative_def)
  have at_open: "stack_contents (trace (''a+'' @ CHR ''('' # ''b*c'') initial ! length ''a+'')
       = Some [CHR ''+'', NUL]"
    "stdout (trace (''a+'' @ CHR ''('' # ''b*c'') initial ! length ''a+'') = ''a''"
    by (simp_all add: run_defs stack_contents_def eval_nat_numeral)
  have alone: "map_sum id (\<lambda>m. (stack_contents m, stdout m)) (convert ''b*c'' initial)
       = Inr (Some [NUL], ''bc*'' @ [CHR 0x0A])"
    by (simp add: run_defs stack_contents_def eval_nat_numeral)
  from unmatched_open_bracket_unreported [OF h] obtain m m_rest stk_open stk_rest
    where r: "convert (''a+'' @ CHR ''('' # ''b*c'') initial = Inr m"
      "convert ''b*c'' initial = Inr m_rest"
      "stack_contents (trace (''a+'' @ CHR ''('' # ''b*c'') initial ! length ''a+'')
         = Some stk_open"
      "stack_contents m_rest = Some stk_rest"
      "stack_contents m = Some (stk_rest @ stk_open)"
      "stdout m = stdout (trace (''a+'' @ CHR ''('' # ''b*c'') initial ! length ''a+'')
         @ stdout m_rest"
    by blast
  from r(3) at_open(1) have "stk_open = [CHR ''+'', NUL]" by simp
  moreover from r(2,4) alone have "stk_rest = [NUL]" "stdout m_rest = ''bc*'' @ [CHR 0x0A]"
    by simp_all
  ultimately have "stack_contents m = Some [NUL, CHR ''+'', NUL]"
    "stdout m = ''abc*'' @ [CHR 0x0A]" "stack_contents m_rest = Some [NUL]"
    using r(4,5,6) at_open(2) by simp_all
  with r(1,2) \<open>stdout m_rest = ''bc*'' @ [CHR 0x0A]\<close> have
    "\<exists>m m_rest. convert (''a+'' @ CHR ''('' # ''b*c'') initial = Inr m
          \<and> convert ''b*c'' initial = Inr m_rest
          \<and> stack_contents m_rest = Some [NUL] \<and> stdout m_rest = ''bc*'' @ [CHR 0x0A]
          \<and> stack_contents m = Some [NUL, CHR ''+'', NUL]
          \<and> stdout m = ''abc*'' @ [CHR 0x0A]"
    by blast
  with h at_open show ?thesis by blast
qed

text \<open>
  Claim C7 as stated fails. \<open>push\<close> has no check of the capacity: after 64 open brackets the
  sentinel of the last one is stored at offset 64, one past the 64 bytes of the block, and
  nothing is reported.
\<close>

theorem overflow_unreported:
  "printed (replicate 64 CHR ''('') = Inl (Store_outside 64)"
  by (simp add: run_defs eval_nat_numeral)

text \<open>
  The bound of 20 is the largest that holds for all expressions: three bytes for each open
  bracket and its two pending operators, above the sentinel at the bottom, fill the block
  at a depth of 21.
\<close>

lemma depth_21_overflows:
  "well_formed (concat (replicate 21 ''a+b*('') @ ''c+d'' @ replicate 21 CHR '')'')
   \<and> nesting 0 (concat (replicate 21 ''a+b*('') @ ''c+d'' @ replicate 21 CHR '')'') = 21
   \<and> printed (concat (replicate 21 ''a+b*('') @ ''c+d'' @ replicate 21 CHR '')'')
       = Inl (Store_outside 64)"
proof -
  have "well_formed (concat (replicate 21 ''a+b*('') @ ''c+d'' @ replicate 21 CHR '')'')"
    by (simp add: well_formed_def expression_char_def is_operand_def is_additive_def
        is_multiplicative_def eval_nat_numeral)
  moreover have "nesting 0 (concat (replicate 21 ''a+b*('') @ ''c+d'' @ replicate 21 CHR '')'') = 21"
    by (simp add: eval_nat_numeral)
  moreover have "printed (concat (replicate 21 ''a+b*('') @ ''c+d'' @ replicate 21 CHR '')'')
       = Inl (Store_outside 64)"
    by (simp add: run_defs eval_nat_numeral)
  ultimately show ?thesis by blast
qed

text \<open>
  Claim C7, amended. No overflow is detected or reported. \<open>push\<close> stores inside the block
  as long as fewer than 64 bytes of it are in use, the sentinel at the bottom included; when
  all 64 are in use it stores at offset 64, one past the block. For every input, whatever
  its characters, in which each close bracket has its open bracket and at most 20 brackets
  are open at once, the conversion returns: no access of the whole run, load or store, is
  outside the block.
\<close>

theorem stack_capacity:
  "(bracket_depth 0 str = Some d \<and> nesting 0 str \<le> 20 \<longrightarrow>
      (\<exists>m. convert str initial = Inr m))
   \<and> (\<forall>m stk c. stack_contents m = Some stk \<longrightarrow>
          (if length stk < 64
           then \<exists>m'. push c m = Inr m' \<and> stack_contents m' = Some (c # stk)
           else push c m = Inl (Store_outside 64)))"
proof -
  have "\<exists>m. convert str initial = Inr m"
    if "bracket_depth 0 str = Some d" "nesting 0 str \<le> 20"
  proof -
    have ok: "list_all scope_ok [[]]" by simp
    from scope_run_returns [OF ok _ that, of "[]"] obtain ss' out'
      where "scope_run str [[]] [] = Inr (ss', out')" by auto
    with printed_on_scopes [of str] show ?thesis by auto
  qed
  moreover have "if length stk < 64
      then \<exists>m'. push c m = Inr m' \<and> stack_contents m' = Some (c # stk)
      else push c m = Inl (Store_outside 64)"
    if "stack_contents m = Some stk" for m stk c
    using push_room [OF that, of c] push_full [OF that, of c] by auto
  ultimately show ?thesis by blast
qed

theorem stack_capacity_witness:
  "bracket_depth 0 ''((a+b)*c)'' = Some 0 \<and> nesting 0 ''((a+b)*c)'' \<le> 20
   \<and> (\<exists>m. convert ''((a+b)*c)'' initial = Inr m)
   \<and> stack_contents initial = Some [NUL]
   \<and> (\<exists>m'. push CHR ''+'' initial = Inr m' \<and> stack_contents m' = Some [CHR ''+'', NUL])"
proof -
  have h: "bracket_depth 0 ''((a+b)*c)'' = Some 0" "nesting 0 ''((a+b)*c)'' \<le> 20"
    by simp_all
  have i: "stack_contents initial = Some [NUL]"
    by (simp add: initial_def stack_contents_def)
  from stack_capacity [of "''((a+b)*c)''" 0] h
  have "\<exists>m. convert ''((a+b)*c)'' initial = Inr m" by blast
  moreover from stack_capacity [of "''((a+b)*c)''" 0] i
  have "\<exists>m'. push CHR ''+'' initial = Inr m' \<and> stack_contents m' = Some [CHR ''+'', NUL]"
    by force
  ultimately show ?thesis using h i by blast
qed

end
